theory Spec2Isabelle
  imports Main
begin

section \<open>The windup library as the hook sees it\<close>

text \<open>
  \<^verbatim>\<open>useWindup.ts\<close> imports \<^verbatim>\<open>isFinished\<close>, \<^verbatim>\<open>lastPlayedElement\<close>, \<^verbatim>\<open>nextElement\<close>,
  \<^verbatim>\<open>next\<close>, \<^verbatim>\<open>fastForward\<close>, \<^verbatim>\<open>rewind\<close> from \<^verbatim>\<open>../Windup\<close>, \<^verbatim>\<open>paceFromWindup\<close> and
  \<^verbatim>\<open>defaultGetPace\<close> from \<^verbatim>\<open>./Pace\<close>, and \<^verbatim>\<open>onCharsFromWindup\<close> from \<^verbatim>\<open>./OnChar\<close>.
  The hook is modelled over any implementation of these imports: they are the fields of a
  record that every definition of the hook takes as its first argument.  The type \<open>'w\<close>
  is the type of windup values and \<open>'n\<close> the type of delays (JavaScript numbers, which the
  hook only hands on).  Equality on \<open>'w\<close> stands for the comparison React makes between
  the entries of two dependency arrays.

  A callback is user code.  It is modelled by its identity, and each call is recorded in the
  history of the hook.  The completion callback may in addition call the functions
  \<^verbatim>\<open>skip\<close> and \<^verbatim>\<open>rewind\<close> that the hook returned: \<open>invokes\<close> lists these calls in
  their order.
\<close>

type_synonym callback = nat

datatype hookCall =
    InvokeSkip
  | InvokeRewind

record onFinishedFn =
  fnId :: callback
  invokes :: "hookCall list"

type_synonym 'n paceFn = "string \<Rightarrow> string option \<Rightarrow> 'n"

record ('w, 'n) windupLib =
  isFinished :: "'w \<Rightarrow> bool"
  lastPlayedElement :: "'w \<Rightarrow> string option"
  nextElement :: "'w \<Rightarrow> string option"
  "next" :: "'w \<Rightarrow> 'w"
  fastForward :: "'w \<Rightarrow> 'w"
  rewind :: "'w \<Rightarrow> 'w"
  paceFromWindup :: "'w \<Rightarrow> 'n paceFn option"
  defaultGetPace :: "'n paceFn"
  onCharsFromWindup :: "'w \<Rightarrow> callback list"

subsection \<open>The progression model of the specification\<close>

text \<open>
  Modelled from the spec: the modules \<^verbatim>\<open>../Windup\<close>, \<^verbatim>\<open>./Pace\<close> and \<^verbatim>\<open>./OnChar\<close> are not
  among the sources.  The specification describes a progression state as a sequence with
  a cursor counting the played elements, and the six model functions over it.  The
  instance below is a sequence with one context, whose metadata (the reveal callbacks and
  the optional pace function) and whose default pace are given.

  The hook compares windups as React compares dependencies, by reference.  \<open>stateId\<close>
  stands for the identity of a state object: where the specification says that a function
  returns a new state, the result has a new \<open>stateId\<close>, and where it says that the state
  is returned unchanged (\<^verbatim>\<open>next\<close> on a finished state; \<^verbatim>\<open>fastForward\<close> is idempotent once
  finished), the result is the argument.
\<close>

record progression =
  sequence :: "string list"
  cursor :: nat
  stateId :: nat

definition progFinished :: "progression \<Rightarrow> bool" where
  "progFinished w = (cursor w = length (sequence w))"

definition progLastPlayed :: "progression \<Rightarrow> string option" where
  "progLastPlayed w =
     (if cursor w = 0 then None
      else if cursor w - 1 < length (sequence w) then Some (sequence w ! (cursor w - 1))
      else None)"

definition progNextElement :: "progression \<Rightarrow> string option" where
  "progNextElement w =
     (if progFinished w then None
      else if cursor w < length (sequence w) then Some (sequence w ! cursor w)
      else None)"

definition progNext :: "progression \<Rightarrow> progression" where
  "progNext w =
     (if progFinished w then w
      else w\<lparr>cursor := cursor w + 1, stateId := stateId w + 1\<rparr>)"

definition progRewind :: "progression \<Rightarrow> progression" where
  "progRewind w = w\<lparr>cursor := 0, stateId := stateId w + 1\<rparr>"

definition progFastForward :: "progression \<Rightarrow> progression" where
  "progFastForward w =
     (if progFinished w then w
      else w\<lparr>cursor := length (sequence w), stateId := stateId w + 1\<rparr>)"

definition cursorLib ::
  "callback list \<Rightarrow> 'n paceFn option \<Rightarrow> 'n paceFn \<Rightarrow> (progression, 'n) windupLib" where
  "cursorLib onChars pace dflt =
     \<lparr> isFinished = progFinished,
       lastPlayedElement = progLastPlayed,
       nextElement = progNextElement,
       next = progNext,
       fastForward = progFastForward,
       rewind = progRewind,
       paceFromWindup = (\<lambda>w. pace),
       defaultGetPace = dflt,
       onCharsFromWindup = (\<lambda>w. onChars) \<rparr>"

section \<open>The reducer\<close>

record 'w windupReducerState =
  windup :: 'w
  didFinishOnce :: bool

datatype 'w windupReducerAction =
    Replace 'w
  | Next
  | Rewind
  | FastForward
  | Finish

definition initWindupState :: "'w \<Rightarrow> 'w windupReducerState" where
  "initWindupState w = \<lparr> windup = w, didFinishOnce = False \<rparr>"

fun windupReducer ::
  "('w, 'n) windupLib \<Rightarrow> 'w windupReducerState \<Rightarrow> 'w windupReducerAction
     \<Rightarrow> 'w windupReducerState" where
  "windupReducer L state (Replace w) = initWindupState w"
| "windupReducer L state Next = state\<lparr>windup := next L (windup state)\<rparr>"
| "windupReducer L state Rewind = \<lparr> windup = rewind L (windup state), didFinishOnce = False \<rparr>"
| "windupReducer L state FastForward = state\<lparr>windup := fastForward L (windup state)\<rparr>"
| "windupReducer L state Finish = state\<lparr>didFinishOnce := True\<rparr>"

section \<open>The hook\<close>

text \<open>
  The second argument of the hook.  \<open>objectId\<close> is the identity of the options object: the
  completion effect lists the object itself among its dependencies, so a new object with
  the same fields counts as a change.
\<close>

record hookOptions =
  onFinished :: "onFinishedFn option"
  skipped :: "bool option"
  objectId :: nat

record 'w hookArgs =
  windupInit :: 'w
  options :: hookOptions

text \<open>What a timer does when it fires: the two closures handed to \<^verbatim>\<open>setTimeout\<close>.\<close>

datatype task =
    DispatchNext
  | NotifyFinished "onFinishedFn option"

record 'n timer =
  handle :: nat
  task :: task
  delay :: 'n

datatype 'w observation =
    Dispatched "'w windupReducerAction"
  | Revealed callback string
  | Completed callback

text \<open>
  The state of one mounted hook: the reducer state and the actions dispatched since the
  last render, the arguments of the current call, the arguments and state of the last
  committed render (against which React compares dependencies), the \<^verbatim>\<open>timeoutRef\<close>, the
  cleanup functions the last run of the two timer effects returned, the timers that are
  pending, the next unused timer handle, and the history of dispatches and callback calls.
\<close>

record ('w, 'n) hook =
  rstate :: "'w windupReducerState"
  queue :: "'w windupReducerAction list"
  args :: "'w hookArgs"
  committed :: "('w hookArgs \<times> 'w windupReducerState) option"
  timeoutRef :: "nat option"
  finishCleanup :: "nat option"
  windupCleanup :: bool
  timers :: "'n timer list"
  fresh :: nat
  history :: "'w observation list"

definition setTimeout :: "task \<Rightarrow> 'n \<Rightarrow> ('w, 'n) hook \<Rightarrow> nat \<times> ('w, 'n) hook" where
  "setTimeout tk dl d =
     (fresh d,
      d\<lparr>timers := timers d @ [\<lparr> handle = fresh d, task = tk, delay = dl \<rparr>],
        fresh := Suc (fresh d)\<rparr>)"

definition clearTimeout :: "nat \<Rightarrow> ('w, 'n) hook \<Rightarrow> ('w, 'n) hook" where
  "clearTimeout h d = d\<lparr>timers := filter (\<lambda>t. handle t \<noteq> h) (timers d)\<rparr>"

definition dispatch :: "'w windupReducerAction \<Rightarrow> ('w, 'n) hook \<Rightarrow> ('w, 'n) hook" where
  "dispatch a d = d\<lparr>queue := queue d @ [a], history := history d @ [Dispatched a]\<rparr>"

text \<open>\<^verbatim>\<open>if (timeoutRef.current) { clearTimeout(timeoutRef.current); }\<close>\<close>

definition clearRef :: "('w, 'n) hook \<Rightarrow> ('w, 'n) hook" where
  "clearRef d = (case timeoutRef d of None \<Rightarrow> d | Some h \<Rightarrow> clearTimeout h d)"

text \<open>
  Whether a dependency array differs from the one of the last committed render; on the
  first render every effect runs.
\<close>

definition depsChanged ::
  "('w hookArgs \<Rightarrow> 'w windupReducerState \<Rightarrow> 'a) \<Rightarrow> ('w, 'n) hook \<Rightarrow> bool" where
  "depsChanged deps d =
     (case committed d of
        None \<Rightarrow> True
      | Some (a0, s0) \<Rightarrow> deps a0 s0 \<noteq> deps (args d) (rstate d))"

definition replaceDeps :: "'w hookArgs \<Rightarrow> 'w windupReducerState \<Rightarrow> 'w" where
  "replaceDeps a s = windupInit a"

definition skippedDeps :: "'w hookArgs \<Rightarrow> 'w windupReducerState \<Rightarrow> bool option" where
  "skippedDeps a s = skipped (options a)"

definition onCharDeps :: "'w hookArgs \<Rightarrow> 'w windupReducerState \<Rightarrow> 'w" where
  "onCharDeps a s = windup s"

definition onFinishedDeps ::
  "('w, 'n) windupLib \<Rightarrow> 'w hookArgs \<Rightarrow> 'w windupReducerState \<Rightarrow> bool \<times> bool \<times> hookOptions" where
  "onFinishedDeps L a s = (didFinishOnce s, isFinished L (windup s), options a)"

definition windupDeps ::
  "('w, 'n) windupLib \<Rightarrow> 'w hookArgs \<Rightarrow> 'w windupReducerState \<Rightarrow> 'w \<times> bool" where
  "windupDeps L a s = (windup s, isFinished L (windup s))"

text \<open>The effect of lines 112 to 114: a changed \<^verbatim>\<open>windupInit\<close> replaces the windup.\<close>

definition replaceEffect :: "('w, 'n) hook \<Rightarrow> ('w, 'n) hook" where
  "replaceEffect d =
     (if depsChanged replaceDeps d then dispatch (Replace (windupInit (args d))) d else d)"

text \<open>The effect of lines 118 to 130, run when \<^verbatim>\<open>options.skipped\<close> changes.\<close>

definition skippedEffect :: "('w, 'n) hook \<Rightarrow> ('w, 'n) hook" where
  "skippedEffect d =
     (if depsChanged skippedDeps d then
        (let d1 = clearRef d;
             d2 = (if skipped (options (args d1)) = Some True
                   then dispatch FastForward d1 else d1)
         in if skipped (options (args d2)) = Some False then dispatch Rewind d2 else d2)
      else d)"

text \<open>
  The effect of lines 133 to 141: every callback of \<^verbatim>\<open>onCharsFromWindup(windup)\<close> is called
  on the last played element, when there is one and it is not the empty string.
\<close>

definition onCharEffect :: "('w, 'n) windupLib \<Rightarrow> ('w, 'n) hook \<Rightarrow> ('w, 'n) hook" where
  "onCharEffect L d =
     (if depsChanged onCharDeps d then
        (let onChars = onCharsFromWindup L (windup (rstate d));
             lastEl = lastPlayedElement L (windup (rstate d))
         in case lastEl of
              None \<Rightarrow> d
            | Some el \<Rightarrow>
                if onChars \<noteq> [] \<and> el \<noteq> []
                then d\<lparr>history := history d @ map (\<lambda>c. Revealed c el) onChars\<rparr>
                else d)
      else d)"

text \<open>
  The effect of lines 144 to 157 and its cleanup.  The cleanup clears the timeout the last
  run of the effect created; it runs before the effect runs again.
\<close>

definition onFinishedCleanup :: "('w, 'n) windupLib \<Rightarrow> ('w, 'n) hook \<Rightarrow> ('w, 'n) hook" where
  "onFinishedCleanup L d =
     (if depsChanged (onFinishedDeps L) d then
        (case finishCleanup d of
           None \<Rightarrow> d
         | Some h \<Rightarrow> (clearTimeout h d)\<lparr>finishCleanup := None\<rparr>)
      else d)"

definition onFinishedEffect :: "('w, 'n::zero) windupLib \<Rightarrow> ('w, 'n) hook \<Rightarrow> ('w, 'n) hook" where
  "onFinishedEffect L d =
     (if depsChanged (onFinishedDeps L) d then
        (if didFinishOnce (rstate d) = False \<and> isFinished L (windup (rstate d)) then
           (let (h, d1) = setTimeout (NotifyFinished (onFinished (options (args d)))) 0 d
            in d1\<lparr>finishCleanup := Some h\<rparr>)
         else d)
      else d)"

text \<open>
  The effect of lines 160 to 177 and its cleanup.  \<open>timerDelay\<close> is the second argument of
  \<^verbatim>\<open>setTimeout\<close> there.
\<close>

definition timerDelay :: "('w, 'n::zero) windupLib \<Rightarrow> 'w \<Rightarrow> 'n" where
  "timerDelay L w =
     (let getPace = (case paceFromWindup L w of Some f \<Rightarrow> f | None \<Rightarrow> defaultGetPace L);
          lastEl = lastPlayedElement L w;
          nextEl = nextElement L w
      in case lastEl of
           None \<Rightarrow> 0
         | Some el \<Rightarrow> if el \<noteq> [] then getPace el nextEl else 0)"

definition windupEffectCleanup :: "('w, 'n) windupLib \<Rightarrow> ('w, 'n) hook \<Rightarrow> ('w, 'n) hook" where
  "windupEffectCleanup L d =
     (if depsChanged (windupDeps L) d \<and> windupCleanup d
      then (clearRef d)\<lparr>windupCleanup := False\<rparr> else d)"

definition windupEffect :: "('w, 'n::zero) windupLib \<Rightarrow> ('w, 'n) hook \<Rightarrow> ('w, 'n) hook" where
  "windupEffect L d =
     (if depsChanged (windupDeps L) d then
        (if \<not> isFinished L (windup (rstate d)) then
           (let (h, d1) = setTimeout DispatchNext (timerDelay L (windup (rstate d))) d
            in d1\<lparr>timeoutRef := Some h, windupCleanup := True\<rparr>)
         else d)
      else d)"

text \<open>
  One render and its commit: the reducer consumes the dispatched actions, the cleanups of
  the effects whose dependencies changed run, then those effects run in the order of
  their declaration, and the rendered values become the ones to compare against.
\<close>

definition reduce :: "('w, 'n) windupLib \<Rightarrow> ('w, 'n) hook \<Rightarrow> ('w, 'n) hook" where
  "reduce L d = d\<lparr>rstate := foldl (windupReducer L) (rstate d) (queue d), queue := []\<rparr>"

definition commit :: "('w, 'n) hook \<Rightarrow> ('w, 'n) hook" where
  "commit d = d\<lparr>committed := Some (args d, rstate d)\<rparr>"

definition render :: "('w, 'n::zero) windupLib \<Rightarrow> ('w, 'n) hook \<Rightarrow> ('w, 'n) hook" where
  "render L d =
     commit (windupEffect L (onFinishedEffect L (onCharEffect L (skippedEffect (replaceEffect
       (windupEffectCleanup L (onFinishedCleanup L (reduce L d))))))))"

text \<open>
  The effects that dispatch are the first two, and they run only when \<^verbatim>\<open>windupInit\<close> or
  \<^verbatim>\<open>options.skipped\<close> differ from the committed ones.
\<close>

definition stale :: "('w, 'n) hook \<Rightarrow> nat" where
  "stale d = (if depsChanged replaceDeps d \<or> depsChanged skippedDeps d then 1 else 0)"


section \<open>Frame properties of the effects\<close>

lemma clearTimeout_frame [simp]:
  "rstate (clearTimeout h d) = rstate d" "queue (clearTimeout h d) = queue d"
  "args (clearTimeout h d) = args d" "committed (clearTimeout h d) = committed d"
  "timeoutRef (clearTimeout h d) = timeoutRef d"
  "finishCleanup (clearTimeout h d) = finishCleanup d"
  "windupCleanup (clearTimeout h d) = windupCleanup d"
  "fresh (clearTimeout h d) = fresh d" "history (clearTimeout h d) = history d"
  "timers (clearTimeout h d) = filter (\<lambda>t. handle t \<noteq> h) (timers d)"
  by (simp_all add: clearTimeout_def)

lemma clearRef_frame [simp]:
  "rstate (clearRef d) = rstate d" "queue (clearRef d) = queue d"
  "args (clearRef d) = args d" "committed (clearRef d) = committed d"
  "timeoutRef (clearRef d) = timeoutRef d"
  "finishCleanup (clearRef d) = finishCleanup d"
  "windupCleanup (clearRef d) = windupCleanup d"
  "fresh (clearRef d) = fresh d" "history (clearRef d) = history d"
  by (simp_all add: clearRef_def split: option.splits)

lemma clearRef_timers:
  "timers (clearRef d) =
     (case timeoutRef d of None \<Rightarrow> timers d
      | Some h \<Rightarrow> filter (\<lambda>t. handle t \<noteq> h) (timers d))"
  by (simp add: clearRef_def split: option.splits)

lemma dispatch_frame [simp]:
  "rstate (dispatch a d) = rstate d" "queue (dispatch a d) = queue d @ [a]"
  "args (dispatch a d) = args d" "committed (dispatch a d) = committed d"
  "timeoutRef (dispatch a d) = timeoutRef d"
  "finishCleanup (dispatch a d) = finishCleanup d"
  "windupCleanup (dispatch a d) = windupCleanup d"
  "fresh (dispatch a d) = fresh d" "timers (dispatch a d) = timers d"
  "history (dispatch a d) = history d @ [Dispatched a]"
  by (simp_all add: dispatch_def)

lemma depsChanged_cong:
  "committed d' = committed d \<Longrightarrow> args d' = args d \<Longrightarrow> rstate d' = rstate d
     \<Longrightarrow> depsChanged deps d' = depsChanged deps d"
  by (simp add: depsChanged_def split: option.splits)

lemma reduce_frame [simp]:
  "rstate (reduce L d) = foldl (windupReducer L) (rstate d) (queue d)"
  "queue (reduce L d) = []"
  "args (reduce L d) = args d" "committed (reduce L d) = committed d"
  "timeoutRef (reduce L d) = timeoutRef d"
  "finishCleanup (reduce L d) = finishCleanup d"
  "windupCleanup (reduce L d) = windupCleanup d"
  "fresh (reduce L d) = fresh d" "timers (reduce L d) = timers d"
  "history (reduce L d) = history d"
  by (simp_all add: reduce_def)

lemma onFinishedCleanup_frame [simp]:
  "rstate (onFinishedCleanup L d) = rstate d" "queue (onFinishedCleanup L d) = queue d"
  "args (onFinishedCleanup L d) = args d" "committed (onFinishedCleanup L d) = committed d"
  "timeoutRef (onFinishedCleanup L d) = timeoutRef d"
  "windupCleanup (onFinishedCleanup L d) = windupCleanup d"
  "fresh (onFinishedCleanup L d) = fresh d" "history (onFinishedCleanup L d) = history d"
  by (simp_all add: onFinishedCleanup_def split: option.splits)

lemma windupEffectCleanup_frame [simp]:
  "rstate (windupEffectCleanup L d) = rstate d" "queue (windupEffectCleanup L d) = queue d"
  "args (windupEffectCleanup L d) = args d"
  "committed (windupEffectCleanup L d) = committed d"
  "timeoutRef (windupEffectCleanup L d) = timeoutRef d"
  "finishCleanup (windupEffectCleanup L d) = finishCleanup d"
  "fresh (windupEffectCleanup L d) = fresh d"
  "history (windupEffectCleanup L d) = history d"
  by (simp_all add: windupEffectCleanup_def)

lemma replaceEffect_frame [simp]:
  "rstate (replaceEffect d) = rstate d"
  "args (replaceEffect d) = args d" "committed (replaceEffect d) = committed d"
  "timeoutRef (replaceEffect d) = timeoutRef d"
  "finishCleanup (replaceEffect d) = finishCleanup d"
  "windupCleanup (replaceEffect d) = windupCleanup d"
  "fresh (replaceEffect d) = fresh d" "timers (replaceEffect d) = timers d"
  by (simp_all add: replaceEffect_def)

lemma skippedEffect_frame [simp]:
  "rstate (skippedEffect d) = rstate d"
  "args (skippedEffect d) = args d" "committed (skippedEffect d) = committed d"
  "timeoutRef (skippedEffect d) = timeoutRef d"
  "finishCleanup (skippedEffect d) = finishCleanup d"
  "windupCleanup (skippedEffect d) = windupCleanup d"
  "fresh (skippedEffect d) = fresh d"
  by (simp_all add: skippedEffect_def Let_def)

lemma onCharEffect_frame [simp]:
  "rstate (onCharEffect L d) = rstate d" "queue (onCharEffect L d) = queue d"
  "args (onCharEffect L d) = args d" "committed (onCharEffect L d) = committed d"
  "timeoutRef (onCharEffect L d) = timeoutRef d"
  "finishCleanup (onCharEffect L d) = finishCleanup d"
  "windupCleanup (onCharEffect L d) = windupCleanup d"
  "fresh (onCharEffect L d) = fresh d" "timers (onCharEffect L d) = timers d"
  by (simp_all add: onCharEffect_def Let_def split: option.splits)

lemma onFinishedEffect_frame [simp]:
  "rstate (onFinishedEffect L d) = rstate d" "queue (onFinishedEffect L d) = queue d"
  "args (onFinishedEffect L d) = args d" "committed (onFinishedEffect L d) = committed d"
  "timeoutRef (onFinishedEffect L d) = timeoutRef d"
  "windupCleanup (onFinishedEffect L d) = windupCleanup d"
  "history (onFinishedEffect L d) = history d"
  by (simp_all add: onFinishedEffect_def setTimeout_def Let_def)

lemma windupEffect_frame [simp]:
  "rstate (windupEffect L d) = rstate d" "queue (windupEffect L d) = queue d"
  "args (windupEffect L d) = args d" "committed (windupEffect L d) = committed d"
  "finishCleanup (windupEffect L d) = finishCleanup d"
  "history (windupEffect L d) = history d"
  by (simp_all add: windupEffect_def setTimeout_def Let_def)

lemma commit_frame [simp]:
  "rstate (commit d) = rstate d" "queue (commit d) = queue d"
  "args (commit d) = args d" "committed (commit d) = Some (args d, rstate d)"
  "timeoutRef (commit d) = timeoutRef d"
  "finishCleanup (commit d) = finishCleanup d"
  "windupCleanup (commit d) = windupCleanup d"
  "fresh (commit d) = fresh d" "timers (commit d) = timers d"
  "history (commit d) = history d"
  by (simp_all add: commit_def)

lemma depsChanged_reduce_args:
  "depsChanged replaceDeps (reduce L d) = depsChanged replaceDeps d"
  "depsChanged skippedDeps (reduce L d) = depsChanged skippedDeps d"
  by (simp_all add: depsChanged_def replaceDeps_def skippedDeps_def split: option.splits)

lemma render_frame [simp]:
  "rstate (render L d) = foldl (windupReducer L) (rstate d) (queue d)"
  "args (render L d) = args d"
  "committed (render L d) = Some (args d, foldl (windupReducer L) (rstate d) (queue d))"
  by (simp_all add: render_def)

lemma replaceEffect_queue:
  "queue (replaceEffect d) =
     (if depsChanged replaceDeps d then queue d @ [Replace (windupInit (args d))] else queue d)"
  by (simp add: replaceEffect_def)

lemma skippedEffect_queue:
  "queue (skippedEffect d) =
     (if depsChanged skippedDeps d then
        (case skipped (options (args d)) of
           None \<Rightarrow> queue d
         | Some True \<Rightarrow> queue d @ [FastForward]
         | Some False \<Rightarrow> queue d @ [Rewind])
      else queue d)"
  by (simp add: skippedEffect_def Let_def split: option.splits bool.splits)

lemma render_queue:
  "queue (render L d) =
     (if depsChanged replaceDeps d then [Replace (windupInit (args d))] else []) @
     (if depsChanged skippedDeps d then
        (case skipped (options (args d)) of
           None \<Rightarrow> []
         | Some True \<Rightarrow> [FastForward]
         | Some False \<Rightarrow> [Rewind])
      else [])"
proof -
  let ?c = "windupEffectCleanup L (onFinishedCleanup L (reduce L d))"
  have r: "depsChanged replaceDeps ?c = depsChanged replaceDeps d"
    by (simp add: depsChanged_def replaceDeps_def split: option.splits)
  have s: "depsChanged skippedDeps (replaceEffect ?c) = depsChanged skippedDeps d"
    by (simp add: depsChanged_def skippedDeps_def split: option.splits)
  show ?thesis
    by (simp add: render_def skippedEffect_queue replaceEffect_queue r s
        split: option.splits bool.splits)
qed

lemma stale_render [simp]: "stale (render L d) = 0"
  by (simp add: stale_def depsChanged_def replaceDeps_def skippedDeps_def)

lemma render_queue_stale: "queue (render L d) \<noteq> [] \<Longrightarrow> stale d = 1"
  by (simp add: render_queue stale_def split: if_splits)


section \<open>Events\<close>

text \<open>
  Events are handled one at a time, each to its end: the handler runs, React renders and
  commits with the actions the handler dispatched, in their order, the effects of the
  render run, and a dispatch made by an effect makes React render again.  \<open>settle\<close> renders until no action is left in the queue.  The renders
  that follow one event are called with the same arguments (the same windup and the same
  options object); new arguments arrive with the event \<open>Rerender\<close>.
\<close>

function settle :: "('w, 'n::zero) windupLib \<Rightarrow> ('w, 'n) hook \<Rightarrow> ('w, 'n) hook" where
  "settle L d = (let d' = render L d in if queue d' = [] then d' else settle L d')"
  by pat_completeness auto
termination
proof (relation "measure (\<lambda>(L, d). stale d)")
  show "wf (measure (\<lambda>(L, d). stale d))" by simp
next
  fix L :: "('w, 'n::zero) windupLib" and d x :: "('w, 'n) hook"
  assume "x = render L d" "queue x \<noteq> []"
  then show "((L, x), (L, d)) \<in> measure (\<lambda>(L, d). stale d)"
    using render_queue_stale [of L d] by simp
qed

declare settle.simps [simp del]

text \<open>
  The bodies of the callbacks \<^verbatim>\<open>skip\<close> (lines 91 to 101) and \<^verbatim>\<open>rewind\<close> (lines 103 to
  109), as they run when the completion callback calls them: the timer in \<^verbatim>\<open>timeoutRef\<close>
  is cleared and the action is dispatched.  \<^verbatim>\<open>windupIsFinished\<close> is the value of the latest
  render.
\<close>

fun invoke :: "('w, 'n) windupLib \<Rightarrow> hookCall \<Rightarrow> ('w, 'n) hook \<Rightarrow> ('w, 'n) hook" where
  "invoke L InvokeSkip d =
     (if \<not> isFinished L (windup (rstate d)) then dispatch FastForward (clearRef d) else d)"
| "invoke L InvokeRewind d = dispatch Rewind (clearRef d)"

text \<open>
  The two closures handed to \<^verbatim>\<open>setTimeout\<close>, lines 166 to 168 and 147 to 152.  The second
  one calls \<^verbatim>\<open>options.onFinished\<close>, if there is one, and then dispatches \<^verbatim>\<open>finish\<close>: the
  actions that the callback dispatches through \<^verbatim>\<open>skip\<close> and \<^verbatim>\<open>rewind\<close> reach the reducer
  before \<^verbatim>\<open>finish\<close> does.
\<close>

fun runTask :: "('w, 'n) windupLib \<Rightarrow> task \<Rightarrow> ('w, 'n) hook \<Rightarrow> ('w, 'n) hook" where
  "runTask L DispatchNext d = dispatch Next d"
| "runTask L (NotifyFinished None) d = dispatch Finish d"
| "runTask L (NotifyFinished (Some f)) d =
     dispatch Finish
       (foldl (\<lambda>x c. invoke L c x) (d\<lparr>history := history d @ [Completed (fnId f)]\<rparr>)
          (invokes f))"

text \<open>
  A pending timer fires: it leaves the pending timers and its closure runs.  A handle that
  is not pending (cleared, or fired before) never fires.
\<close>

definition fire :: "('w, 'n::zero) windupLib \<Rightarrow> nat \<Rightarrow> ('w, 'n) hook \<Rightarrow> ('w, 'n) hook" where
  "fire L h d =
     (case find (\<lambda>t. handle t = h) (timers d) of
        None \<Rightarrow> d
      | Some t \<Rightarrow> settle L (runTask L (task t) (clearTimeout h d)))"

text \<open>
  The callbacks the hook returns, lines 91 to 101 and 103 to 109.  \<^verbatim>\<open>windupIsFinished\<close> in
  \<^verbatim>\<open>skip\<close> is the value of the render that made the callback, which is the latest one.
\<close>

definition skip :: "('w, 'n::zero) windupLib \<Rightarrow> ('w, 'n) hook \<Rightarrow> ('w, 'n) hook" where
  "skip L d =
     (if \<not> isFinished L (windup (rstate d))
      then settle L (dispatch FastForward (clearRef d))
      else d)"

definition rewindCallback :: "('w, 'n::zero) windupLib \<Rightarrow> ('w, 'n) hook \<Rightarrow> ('w, 'n) hook" where
  "rewindCallback L d = settle L (dispatch Rewind (clearRef d))"

text \<open>The component renders again with the given arguments.\<close>

definition rerender ::
  "('w, 'n::zero) windupLib \<Rightarrow> 'w hookArgs \<Rightarrow> ('w, 'n) hook \<Rightarrow> ('w, 'n) hook" where
  "rerender L a d = settle L (d\<lparr>args := a\<rparr>)"

text \<open>
  The first call of the hook: \<^verbatim>\<open>useReducer\<close> initialises the state with
  \<^verbatim>\<open>initWindupState(windupInit)\<close>, \<^verbatim>\<open>useRef(null)\<close> the reference, and every effect runs.
\<close>

definition unmounted :: "'w hookArgs \<Rightarrow> ('w, 'n) hook" where
  "unmounted a =
     \<lparr> rstate = initWindupState (windupInit a), queue = [], args = a, committed = None,
       timeoutRef = None, finishCleanup = None, windupCleanup = False, timers = [],
       fresh = 1, history = [] \<rparr>"

definition mount :: "('w, 'n::zero) windupLib \<Rightarrow> 'w hookArgs \<Rightarrow> ('w, 'n) hook" where
  "mount L a = settle L (unmounted a)"

datatype 'w event =
    TimerFires nat
  | CallSkip
  | CallRewind
  | Rerender "'w hookArgs"

fun step :: "('w, 'n::zero) windupLib \<Rightarrow> 'w event \<Rightarrow> ('w, 'n) hook \<Rightarrow> ('w, 'n) hook" where
  "step L (TimerFires h) d = fire L h d"
| "step L CallSkip d = skip L d"
| "step L CallRewind d = rewindCallback L d"
| "step L (Rerender a) d = rerender L a d"

definition run :: "('w, 'n::zero) windupLib \<Rightarrow> 'w hookArgs \<Rightarrow> 'w event list \<Rightarrow> ('w, 'n) hook" where
  "run L a es = foldl (\<lambda>d e. step L e d) (mount L a) es"

text \<open>The states of the hook between two events.\<close>

inductive reachable :: "('w, 'n::zero) windupLib \<Rightarrow> ('w, 'n) hook \<Rightarrow> bool"
  for L :: "('w, 'n::zero) windupLib" where
  mounted: "reachable L (mount L a)"
| stepped: "reachable L d \<Longrightarrow> reachable L (step L e d)"


section \<open>What holds of the pending timers\<close>

text \<open>
  Handles are never reused, and the handle in \<^verbatim>\<open>timeoutRef\<close> is never the one of a
  completion timer.  A pending completion timer is the one its effect's cleanup clears, and
  it was created with delay 0 for dependencies that say the windup is finished and
  \<^verbatim>\<open>didFinishOnce\<close> is false; a pending advance timer is the one in \<^verbatim>\<open>timeoutRef\<close>, with a registered cleanup,
  created for a windup that is not finished, with the delay computed from that windup.
\<close>

definition timersWf :: "('w, 'n) hook \<Rightarrow> bool" where
  "timersWf d \<longleftrightarrow>
     distinct (map handle (timers d)) \<and>
     (\<forall>t\<in>set (timers d). handle t < fresh d) \<and>
     (\<forall>h. timeoutRef d = Some h \<longrightarrow> h < fresh d) \<and>
     (\<forall>t\<in>set (timers d). task t \<noteq> DispatchNext \<longrightarrow> timeoutRef d \<noteq> Some (handle t))"

definition finOK :: "('w, 'n::zero) hook \<Rightarrow> bool \<times> bool \<times> hookOptions \<Rightarrow> bool" where
  "finOK d x \<longleftrightarrow>
     (\<forall>t\<in>set (timers d). \<forall>c. task t = NotifyFinished c \<longrightarrow>
        finishCleanup d = Some (handle t) \<and> \<not> fst x \<and> fst (snd x) \<and>
        c = onFinished (snd (snd x)) \<and> delay t = 0)"

definition advOK :: "('w, 'n::zero) windupLib \<Rightarrow> ('w, 'n) hook \<Rightarrow> 'w \<times> bool \<Rightarrow> bool" where
  "advOK L d y \<longleftrightarrow>
     (\<forall>t\<in>set (timers d). task t = DispatchNext \<longrightarrow>
        timeoutRef d = Some (handle t) \<and> windupCleanup d \<and> \<not> snd y \<and>
        delay t = timerDelay L (fst y))"

definition noFinish :: "('w, 'n) hook \<Rightarrow> bool" where
  "noFinish d \<longleftrightarrow> (\<forall>t\<in>set (timers d). task t = DispatchNext)"

definition noAdvance :: "('w, 'n) hook \<Rightarrow> bool" where
  "noAdvance d \<longleftrightarrow> (\<forall>t\<in>set (timers d). task t \<noteq> DispatchNext)"

definition pre4 :: "('w, 'n::zero) windupLib \<Rightarrow> ('w, 'n) hook \<Rightarrow> bool" where
  "pre4 L d \<longleftrightarrow>
     (case committed d of None \<Rightarrow> noFinish d
      | Some (a0, s0) \<Rightarrow> finOK d (onFinishedDeps L a0 s0))"

definition pre5 :: "('w, 'n::zero) windupLib \<Rightarrow> ('w, 'n) hook \<Rightarrow> bool" where
  "pre5 L d \<longleftrightarrow>
     (case committed d of None \<Rightarrow> noAdvance d
      | Some (a0, s0) \<Rightarrow> advOK L d (windupDeps L a0 s0))"

definition mid4 :: "('w, 'n::zero) windupLib \<Rightarrow> ('w, 'n) hook \<Rightarrow> bool" where
  "mid4 L d \<longleftrightarrow>
     finOK d (onFinishedDeps L (args d) (rstate d)) \<and>
     (depsChanged (onFinishedDeps L) d \<longrightarrow> noFinish d)"

definition mid5 :: "('w, 'n::zero) windupLib \<Rightarrow> ('w, 'n) hook \<Rightarrow> bool" where
  "mid5 L d \<longleftrightarrow>
     advOK L d (windupDeps L (args d) (rstate d)) \<and>
     (depsChanged (windupDeps L) d \<longrightarrow> noAdvance d)"

lemma noFinish_finOK: "noFinish d \<Longrightarrow> finOK d x"
  by (auto simp: noFinish_def finOK_def)

lemma noAdvance_advOK: "noAdvance d \<Longrightarrow> advOK L d y"
  by (auto simp: noAdvance_def advOK_def)

lemma finOK_sub:
  "finOK d x \<Longrightarrow> set (timers d') \<subseteq> set (timers d) \<Longrightarrow> finishCleanup d' = finishCleanup d
     \<Longrightarrow> finOK d' x"
  by (auto simp: finOK_def)

lemma advOK_sub:
  "advOK L d y \<Longrightarrow> set (timers d') \<subseteq> set (timers d) \<Longrightarrow> timeoutRef d' = timeoutRef d
     \<Longrightarrow> windupCleanup d' = windupCleanup d \<Longrightarrow> advOK L d' y"
  by (auto simp: advOK_def)

lemma noFinish_sub: "noFinish d \<Longrightarrow> set (timers d') \<subseteq> set (timers d) \<Longrightarrow> noFinish d'"
  by (auto simp: noFinish_def)

lemma noAdvance_sub: "noAdvance d \<Longrightarrow> set (timers d') \<subseteq> set (timers d) \<Longrightarrow> noAdvance d'"
  by (auto simp: noAdvance_def)

lemma timersWf_sub:
  "timersWf d \<Longrightarrow> timers d' = filter P (timers d) \<Longrightarrow> fresh d' = fresh d
     \<Longrightarrow> timeoutRef d' = timeoutRef d \<Longrightarrow> timersWf d'"
  by (auto simp: timersWf_def distinct_map_filter)

lemma timersWf_same:
  "timersWf d \<Longrightarrow> timers d' = timers d \<Longrightarrow> fresh d' = fresh d
     \<Longrightarrow> timeoutRef d' = timeoutRef d \<Longrightarrow> timersWf d'"
  by (auto simp: timersWf_def)

lemma clearRef_timers_filter:
  "timers (clearRef d) = filter (\<lambda>t. timeoutRef d \<noteq> Some (handle t)) (timers d)"
  by (auto simp: clearRef_timers split: option.splits intro: filter_cong)

lemma clearRef_timers_sub: "set (timers (clearRef d)) \<subseteq> set (timers d)"
  by (simp add: clearRef_timers_filter)

lemma skippedEffect_timers:
  "timers (skippedEffect d) =
     (if depsChanged skippedDeps d then timers (clearRef d) else timers d)"
  by (simp add: skippedEffect_def Let_def)

lemma skippedEffect_timers_filter:
  "timers (skippedEffect d) =
     filter (\<lambda>t. \<not> (depsChanged skippedDeps d \<and> timeoutRef d = Some (handle t))) (timers d)"
  by (simp add: skippedEffect_timers clearRef_timers_filter)

subsection \<open>The cleanups\<close>

lemma onFinishedCleanup_timers_filter:
  "timers (onFinishedCleanup L d) =
     filter (\<lambda>t. \<not> (depsChanged (onFinishedDeps L) d \<and> finishCleanup d = Some (handle t)))
       (timers d)"
  by (auto simp: onFinishedCleanup_def split: option.splits intro: filter_cong)

lemma windupEffectCleanup_timers_filter:
  "timers (windupEffectCleanup L d) =
     filter (\<lambda>t. \<not> (depsChanged (windupDeps L) d \<and> windupCleanup d
                     \<and> timeoutRef d = Some (handle t))) (timers d)"
  by (cases "depsChanged (windupDeps L) d \<and> windupCleanup d")
     (auto simp: windupEffectCleanup_def clearRef_timers_filter intro: filter_cong)

lemma not_DispatchNext: "task t \<noteq> DispatchNext \<longleftrightarrow> (\<exists>c. task t = NotifyFinished c)"
  by (cases "task t") simp_all

lemma onFinishedCleanup_mid4:
  assumes "pre4 L d"
  shows "mid4 L (onFinishedCleanup L d)"
proof -
  let ?d = "onFinishedCleanup L d"
  have ch: "depsChanged (onFinishedDeps L) ?d = depsChanged (onFinishedDeps L) d"
    by (rule depsChanged_cong) simp_all
  show ?thesis
  proof (cases "depsChanged (onFinishedDeps L) d")
    case True
    have "noFinish ?d"
      unfolding noFinish_def
    proof
      fix t assume t: "t \<in> set (timers ?d)"
      then have mem: "t \<in> set (timers d)" and ne: "finishCleanup d \<noteq> Some (handle t)"
        using True by (auto simp: onFinishedCleanup_timers_filter)
      show "task t = DispatchNext"
      proof (cases "committed d")
        case None
        then show ?thesis using assms mem by (simp add: pre4_def noFinish_def)
      next
        case (Some p)
        then show ?thesis using assms mem ne
          by (cases p; cases "task t") (auto simp: pre4_def finOK_def)
      qed
    qed
    then show ?thesis by (simp add: mid4_def noFinish_finOK)
  next
    case False
    then obtain a0 s0 where c: "committed d = Some (a0, s0)"
      and eq: "onFinishedDeps L a0 s0 = onFinishedDeps L (args d) (rstate d)"
      by (auto simp: depsChanged_def split: option.splits)
    have "onFinishedCleanup L d = d" using False by (simp add: onFinishedCleanup_def)
    then show ?thesis using assms c eq False by (simp add: mid4_def pre4_def)
  qed
qed

lemma windupEffectCleanup_mid5:
  assumes "pre5 L d"
  shows "mid5 L (windupEffectCleanup L d)"
proof -
  let ?d = "windupEffectCleanup L d"
  have ch: "depsChanged (windupDeps L) ?d = depsChanged (windupDeps L) d"
    by (rule depsChanged_cong) simp_all
  show ?thesis
  proof (cases "depsChanged (windupDeps L) d")
    case True
    have "noAdvance ?d"
      unfolding noAdvance_def
    proof
      fix t assume t: "t \<in> set (timers ?d)"
      then have mem: "t \<in> set (timers d)"
        and ne: "\<not> (windupCleanup d \<and> timeoutRef d = Some (handle t))"
        using True by (auto simp: windupEffectCleanup_timers_filter)
      show "task t \<noteq> DispatchNext"
      proof (cases "committed d")
        case None
        then show ?thesis using assms mem by (simp add: pre5_def noAdvance_def)
      next
        case (Some p)
        then show ?thesis using assms mem ne
          by (cases p) (auto simp: pre5_def advOK_def)
      qed
    qed
    then show ?thesis by (simp add: mid5_def noAdvance_advOK)
  next
    case False
    then obtain a0 s0 where c: "committed d = Some (a0, s0)"
      and eq: "windupDeps L a0 s0 = windupDeps L (args d) (rstate d)"
      by (auto simp: depsChanged_def split: option.splits)
    have "windupEffectCleanup L d = d" using False by (simp add: windupEffectCleanup_def)
    then show ?thesis using assms c eq False by (simp add: mid5_def pre5_def)
  qed
qed

text \<open>Steps that only remove timers keep what holds of every pending timer.\<close>

lemma mid4_sub:
  assumes "mid4 L d" "set (timers d') \<subseteq> set (timers d)" "finishCleanup d' = finishCleanup d"
    "committed d' = committed d" "args d' = args d" "rstate d' = rstate d"
  shows "mid4 L d'"
  using assms depsChanged_cong [of d' d "onFinishedDeps L"]
  by (auto simp: mid4_def intro: finOK_sub noFinish_sub)

lemma mid5_sub:
  assumes "mid5 L d" "set (timers d') \<subseteq> set (timers d)" "timeoutRef d' = timeoutRef d"
    "windupCleanup d' = windupCleanup d"
    "committed d' = committed d" "args d' = args d" "rstate d' = rstate d"
  shows "mid5 L d'"
  using assms depsChanged_cong [of d' d "windupDeps L"]
  by (auto simp: mid5_def intro: advOK_sub noAdvance_sub)

lemma pre4_sub:
  assumes "pre4 L d" "set (timers d') \<subseteq> set (timers d)" "finishCleanup d' = finishCleanup d"
    "committed d' = committed d"
  shows "pre4 L d'"
  using assms by (auto simp: pre4_def split: option.splits intro: finOK_sub noFinish_sub)

lemma pre5_sub:
  assumes "pre5 L d" "set (timers d') \<subseteq> set (timers d)" "timeoutRef d' = timeoutRef d"
    "windupCleanup d' = windupCleanup d" "committed d' = committed d"
  shows "pre5 L d'"
  using assms by (auto simp: pre5_def split: option.splits intro: advOK_sub noAdvance_sub)


subsection \<open>The two effects that create timers\<close>

definition finishDue :: "('w, 'n) windupLib \<Rightarrow> ('w, 'n) hook \<Rightarrow> bool" where
  "finishDue L d \<longleftrightarrow>
     depsChanged (onFinishedDeps L) d \<and> \<not> didFinishOnce (rstate d)
     \<and> isFinished L (windup (rstate d))"

definition advanceDue :: "('w, 'n) windupLib \<Rightarrow> ('w, 'n) hook \<Rightarrow> bool" where
  "advanceDue L d \<longleftrightarrow>
     depsChanged (windupDeps L) d \<and> \<not> isFinished L (windup (rstate d))"

lemma onFinishedEffect_timers:
  "timers (onFinishedEffect L d) =
     (if finishDue L d
      then timers d @ [\<lparr> handle = fresh d,
                          task = NotifyFinished (onFinished (options (args d))), delay = 0 \<rparr>]
      else timers d)"
  "finishCleanup (onFinishedEffect L d) =
     (if finishDue L d then Some (fresh d) else finishCleanup d)"
  "fresh (onFinishedEffect L d) = (if finishDue L d then Suc (fresh d) else fresh d)"
  by (simp_all add: onFinishedEffect_def finishDue_def setTimeout_def)

lemma windupEffect_timers:
  "timers (windupEffect L d) =
     (if advanceDue L d
      then timers d @ [\<lparr> handle = fresh d, task = DispatchNext,
                          delay = timerDelay L (windup (rstate d)) \<rparr>]
      else timers d)"
  "timeoutRef (windupEffect L d) = (if advanceDue L d then Some (fresh d) else timeoutRef d)"
  "windupCleanup (windupEffect L d) = (if advanceDue L d then True else windupCleanup d)"
  "fresh (windupEffect L d) = (if advanceDue L d then Suc (fresh d) else fresh d)"
  by (simp_all add: windupEffect_def advanceDue_def setTimeout_def)

lemma onFinishedEffect_finOK:
  assumes "mid4 L d"
  shows "finOK (onFinishedEffect L d) (onFinishedDeps L (args d) (rstate d))"
proof (cases "finishDue L d")
  case True
  then have "noFinish d" using assms by (simp add: mid4_def finishDue_def)
  then show ?thesis using True
    by (auto simp: finOK_def noFinish_def onFinishedEffect_timers finishDue_def
        onFinishedDeps_def)
next
  case False
  then show ?thesis using assms
    by (auto simp: mid4_def finOK_def onFinishedEffect_timers)
qed

lemma onFinishedEffect_mid5:
  assumes "mid5 L d"
  shows "mid5 L (onFinishedEffect L d)"
proof -
  have "depsChanged (windupDeps L) (onFinishedEffect L d) = depsChanged (windupDeps L) d"
    by (rule depsChanged_cong) simp_all
  then show ?thesis using assms
    by (auto simp: mid5_def advOK_def noAdvance_def onFinishedEffect_timers)
qed

lemma windupEffect_advOK:
  assumes "mid5 L d"
  shows "advOK L (windupEffect L d) (windupDeps L (args d) (rstate d))"
proof (cases "advanceDue L d")
  case True
  then have "noAdvance d" using assms by (simp add: mid5_def advanceDue_def)
  then show ?thesis using True
    by (auto simp: advOK_def noAdvance_def windupEffect_timers advanceDue_def windupDeps_def)
next
  case False
  then show ?thesis using assms
    by (auto simp: mid5_def advOK_def windupEffect_timers)
qed

lemma windupEffect_finOK:
  assumes "finOK d x"
  shows "finOK (windupEffect L d) x"
  using assms by (auto simp: finOK_def windupEffect_timers)

lemma timersWf_onFinishedEffect:
  assumes "timersWf d"
  shows "timersWf (onFinishedEffect L d)"
  using assms by (auto simp: timersWf_def onFinishedEffect_timers)

lemma timersWf_windupEffect:
  assumes "timersWf d"
  shows "timersWf (windupEffect L d)"
  using assms by (auto simp: timersWf_def windupEffect_timers)

definition consistent :: "('w, 'n::zero) windupLib \<Rightarrow> ('w, 'n) hook \<Rightarrow> bool" where
  "consistent L d \<longleftrightarrow> timersWf d \<and> pre4 L d \<and> pre5 L d"

text \<open>The state of a render at the point where the windup effect is next to run.\<close>

definition beforeWindupEffect :: "('w, 'n::zero) windupLib \<Rightarrow> ('w, 'n) hook \<Rightarrow> ('w, 'n) hook" where
  "beforeWindupEffect L d =
     onFinishedEffect L (onCharEffect L (skippedEffect (replaceEffect
       (windupEffectCleanup L (onFinishedCleanup L (reduce L d))))))"

lemma render_split: "render L d = commit (windupEffect L (beforeWindupEffect L d))"
  by (simp add: render_def beforeWindupEffect_def)

lemma beforeWindupEffect_frame [simp]:
  "rstate (beforeWindupEffect L d) = foldl (windupReducer L) (rstate d) (queue d)"
  "args (beforeWindupEffect L d) = args d"
  "committed (beforeWindupEffect L d) = committed d"
  by (simp_all add: beforeWindupEffect_def)

lemma beforeWindupEffect_consistent:
  assumes "consistent L d"
  shows "timersWf (beforeWindupEffect L d)"
    and "finOK (beforeWindupEffect L d)
           (onFinishedDeps L (args d) (foldl (windupReducer L) (rstate d) (queue d)))"
    and "mid5 L (beforeWindupEffect L d)"
proof -
  let ?r = "reduce L d"
  let ?c4 = "onFinishedCleanup L ?r"
  let ?c5 = "windupEffectCleanup L ?c4"
  let ?e1 = "replaceEffect ?c5"
  let ?e2 = "skippedEffect ?e1"
  let ?e3 = "onCharEffect L ?e2"
  let ?e4 = "onFinishedEffect L ?e3"
  have e4: "beforeWindupEffect L d = ?e4" by (simp add: beforeWindupEffect_def)
  from assms have w0: "timersWf ?r" and p4: "pre4 L ?r" and p5: "pre5 L ?r"
    by (auto simp: consistent_def intro: timersWf_same pre4_sub pre5_sub)
  have w4: "timersWf ?c4"
    by (rule timersWf_sub [OF w0 onFinishedCleanup_timers_filter]) simp_all
  have m4: "mid4 L ?c4" by (rule onFinishedCleanup_mid4 [OF p4])
  have p5': "pre5 L ?c4"
    by (rule pre5_sub [OF p5]) (simp_all add: onFinishedCleanup_timers_filter)
  have w5: "timersWf ?c5"
    by (rule timersWf_sub [OF w4 windupEffectCleanup_timers_filter]) simp_all
  have m5: "mid5 L ?c5" by (rule windupEffectCleanup_mid5 [OF p5'])
  have m4': "mid4 L ?c5"
    by (rule mid4_sub [OF m4]) (simp_all add: windupEffectCleanup_timers_filter)
  have w1: "timersWf ?e1" by (rule timersWf_same [OF w5]) simp_all
  have m41: "mid4 L ?e1" by (rule mid4_sub [OF m4']) simp_all
  have m51: "mid5 L ?e1" by (rule mid5_sub [OF m5]) simp_all
  have w2: "timersWf ?e2"
    by (rule timersWf_sub [OF w1 skippedEffect_timers_filter]) simp_all
  have m42: "mid4 L ?e2"
    by (rule mid4_sub [OF m41]) (simp_all add: skippedEffect_timers_filter)
  have m52: "mid5 L ?e2"
    by (rule mid5_sub [OF m51]) (simp_all add: skippedEffect_timers_filter)
  have w3: "timersWf ?e3" by (rule timersWf_same [OF w2]) simp_all
  have m43: "mid4 L ?e3" by (rule mid4_sub [OF m42]) simp_all
  have m53: "mid5 L ?e3" by (rule mid5_sub [OF m52]) simp_all
  show "timersWf (beforeWindupEffect L d)"
    unfolding e4 by (rule timersWf_onFinishedEffect [OF w3])
  show "finOK (beforeWindupEffect L d)
           (onFinishedDeps L (args d) (foldl (windupReducer L) (rstate d) (queue d)))"
    unfolding e4 using onFinishedEffect_finOK [OF m43] by simp
  show "mid5 L (beforeWindupEffect L d)"
    unfolding e4 by (rule onFinishedEffect_mid5 [OF m53])
qed

lemma render_consistent:
  assumes "consistent L d"
  shows "consistent L (render L d)"
proof -
  let ?e4 = "beforeWindupEffect L d"
  let ?e5 = "windupEffect L ?e4"
  note b = beforeWindupEffect_consistent [OF assms]
  have w5e: "timersWf ?e5" by (rule timersWf_windupEffect [OF b(1)])
  have f5: "finOK ?e5 (onFinishedDeps L (args d) (foldl (windupReducer L) (rstate d) (queue d)))"
    by (rule windupEffect_finOK [OF b(2)])
  have a5: "advOK L ?e5 (windupDeps L (args ?e4) (rstate ?e4))"
    by (rule windupEffect_advOK [OF b(3)])
  have "timersWf (commit ?e5)" by (rule timersWf_same [OF w5e]) simp_all
  moreover have "pre4 L (commit ?e5)"
    using finOK_sub [OF f5, of "commit ?e5"] by (simp add: pre4_def)
  moreover have "pre5 L (commit ?e5)"
    using advOK_sub [OF a5, of "commit ?e5"] by (simp add: pre5_def)
  ultimately show ?thesis by (simp add: render_split consistent_def)
qed

text \<open>
  When the windup effect creates a timer, no advance timer is pending: the cleanup of its
  last run has cleared the one there was.
\<close>

lemma windupEffect_creates:
  "timers (windupEffect L d) \<noteq> timers d \<longleftrightarrow> advanceDue L d"
  by (simp add: windupEffect_timers)

lemma windupEffect_after_cleanup:
  assumes "consistent L d"
    and "timers (windupEffect L (beforeWindupEffect L d)) \<noteq> timers (beforeWindupEffect L d)"
  shows "\<forall>t\<in>set (timers (beforeWindupEffect L d)). task t \<noteq> DispatchNext"
  using beforeWindupEffect_consistent(3) [OF assms(1)] assms(2)
  by (simp add: windupEffect_creates advanceDue_def mid5_def noAdvance_def)


section \<open>The states between events\<close>

lemma settle_unfold:
  "settle L d = (if queue (render L d) = [] then render L d else render L (render L d))"
proof -
  have "queue (render L (render L d)) = []"
    using render_queue_stale [of L "render L d"] by auto
  then show ?thesis
    by (simp add: settle.simps [of L d] settle.simps [of L "render L d"] Let_def)
qed

lemma settle_consistent:
  assumes "consistent L d"
  shows "consistent L (settle L d)"
  using assms by (simp add: settle_unfold render_consistent)

lemma settle_quiescent:
  "queue (settle L d) = []" "committed (settle L d) = Some (args (settle L d), rstate (settle L d))"
  "args (settle L d) = args d"
proof -
  have q: "queue (render L (render L d)) = []"
    using render_queue_stale [of L "render L d"] by auto
  show "queue (settle L d) = []" using q by (simp add: settle_unfold)
  show "committed (settle L d) = Some (args (settle L d), rstate (settle L d))"
    by (simp add: settle_unfold)
  show "args (settle L d) = args d" by (simp add: settle_unfold)
qed

definition quiescent :: "('w, 'n) hook \<Rightarrow> bool" where
  "quiescent d \<longleftrightarrow> queue d = [] \<and> committed d = Some (args d, rstate d)"

lemma consistent_unmounted: "consistent L (unmounted a)"
  by (simp add: consistent_def timersWf_def pre4_def pre5_def noFinish_def noAdvance_def
      unmounted_def)

lemma consistent_clearTimeout:
  assumes "consistent L d"
  shows "consistent L (clearTimeout h d)"
  using assms unfolding consistent_def
  by (auto intro: timersWf_sub [where P = "\<lambda>t. handle t \<noteq> h"] pre4_sub pre5_sub)

lemma consistent_clearRef:
  assumes "consistent L d"
  shows "consistent L (clearRef d)"
  using assms by (simp add: clearRef_def consistent_clearTimeout split: option.splits)

lemma consistent_same:
  assumes "consistent L d" "timers d' = timers d" "fresh d' = fresh d"
    "timeoutRef d' = timeoutRef d" "finishCleanup d' = finishCleanup d"
    "windupCleanup d' = windupCleanup d" "committed d' = committed d"
  shows "consistent L d'"
  using assms unfolding consistent_def
  by (auto intro: timersWf_same pre4_sub pre5_sub)

lemma consistent_dispatch:
  "consistent L d \<Longrightarrow> consistent L (dispatch a d)"
  by (erule consistent_same) simp_all

lemma invoke_frame [simp]:
  "rstate (invoke L c d) = rstate d"
  "args (invoke L c d) = args d" "committed (invoke L c d) = committed d"
  "timeoutRef (invoke L c d) = timeoutRef d"
  "finishCleanup (invoke L c d) = finishCleanup d"
  "windupCleanup (invoke L c d) = windupCleanup d"
  "fresh (invoke L c d) = fresh d"
  by (cases c; simp)+

lemma invoke_timers:
  "timers (invoke L c d) = timers d \<or> timers (invoke L c d) = timers (clearRef d)"
  by (cases c) simp_all

lemma invoke_timers_sub: "set (timers (invoke L c d)) \<subseteq> set (timers d)"
  using invoke_timers [of L c d] clearRef_timers_sub [of d] by auto

lemma consistent_invoke: "consistent L d \<Longrightarrow> consistent L (invoke L c d)"
  by (cases c) (simp_all add: consistent_dispatch consistent_clearRef)

lemma invokes_frame [simp]:
  "rstate (foldl (\<lambda>x c. invoke L c x) d cs) = rstate d"
  "args (foldl (\<lambda>x c. invoke L c x) d cs) = args d"
  "committed (foldl (\<lambda>x c. invoke L c x) d cs) = committed d"
  "timeoutRef (foldl (\<lambda>x c. invoke L c x) d cs) = timeoutRef d"
  "finishCleanup (foldl (\<lambda>x c. invoke L c x) d cs) = finishCleanup d"
  "windupCleanup (foldl (\<lambda>x c. invoke L c x) d cs) = windupCleanup d"
  "fresh (foldl (\<lambda>x c. invoke L c x) d cs) = fresh d"
  by (induction cs arbitrary: d; simp)+

lemma invokes_timers_sub: "set (timers (foldl (\<lambda>x c. invoke L c x) d cs)) \<subseteq> set (timers d)"
proof (induction cs arbitrary: d)
  case Nil
  show ?case by simp
next
  case (Cons c cs)
  show ?case using Cons [of "invoke L c d"] invoke_timers_sub [of L c d] by auto
qed

lemma consistent_invokes:
  "consistent L d \<Longrightarrow> consistent L (foldl (\<lambda>x c. invoke L c x) d cs)"
  by (induction cs arbitrary: d) (simp_all add: consistent_invoke)

lemma runTask_frame [simp]:
  "rstate (runTask L tk d) = rstate d"
  "args (runTask L tk d) = args d" "committed (runTask L tk d) = committed d"
  "timeoutRef (runTask L tk d) = timeoutRef d"
  "finishCleanup (runTask L tk d) = finishCleanup d"
  "windupCleanup (runTask L tk d) = windupCleanup d"
  "fresh (runTask L tk d) = fresh d"
  by (cases "(L, tk, d)" rule: runTask.cases; simp)+

lemma runTask_timers_sub: "set (timers (runTask L tk d)) \<subseteq> set (timers d)"
proof (cases "(L, tk, d)" rule: runTask.cases)
  case (3 L' f d')
  then show ?thesis
    using invokes_timers_sub [of L "d\<lparr>history := history d @ [Completed (fnId f)]\<rparr>" "invokes f"]
    by simp
qed simp_all

lemma runTask_next_timers [simp]: "timers (runTask L DispatchNext d) = timers d"
  by simp

lemma consistent_runTask:
  assumes "consistent L d"
  shows "consistent L (runTask L tk d)"
proof (cases "(L, tk, d)" rule: runTask.cases)
  case (1 L' d')
  then show ?thesis using assms by (simp add: consistent_dispatch)
next
  case (2 L' d')
  then show ?thesis using assms by (simp add: consistent_dispatch)
next
  case (3 L' f d')
  have "consistent L (d\<lparr>history := history d @ [Completed (fnId f)]\<rparr>)"
    by (rule consistent_same [OF assms]) simp_all
  then show ?thesis using 3 by (simp add: consistent_dispatch consistent_invokes)
qed

lemma consistent_args:
  "consistent L d \<Longrightarrow> consistent L (d\<lparr>args := a\<rparr>)"
  by (erule consistent_same) simp_all

lemma step_consistent:
  assumes "consistent L d"
  shows "consistent L (step L e d)"
proof (cases e)
  case (TimerFires h)
  then show ?thesis using assms
    by (auto simp: fire_def split: option.splits
        intro!: settle_consistent consistent_runTask consistent_clearTimeout)
next
  case CallSkip
  then show ?thesis using assms
    by (auto simp: skip_def intro!: settle_consistent consistent_dispatch consistent_clearRef)
next
  case CallRewind
  then show ?thesis using assms
    by (auto simp: rewindCallback_def
        intro!: settle_consistent consistent_dispatch consistent_clearRef)
next
  case (Rerender a)
  then show ?thesis using assms
    by (auto simp: rerender_def intro!: settle_consistent consistent_args)
qed

lemma mount_quiescent: "quiescent (mount L a)"
  by (simp add: quiescent_def mount_def settle_quiescent)

lemma step_quiescent:
  assumes "quiescent d"
  shows "quiescent (step L e d)"
proof (cases e)
  case (TimerFires h)
  then show ?thesis using assms
    by (auto simp: fire_def quiescent_def settle_quiescent split: option.splits)
next
  case CallSkip
  then show ?thesis using assms by (auto simp: skip_def quiescent_def settle_quiescent)
next
  case CallRewind
  then show ?thesis by (simp add: rewindCallback_def quiescent_def settle_quiescent)
next
  case (Rerender a)
  then show ?thesis by (simp add: rerender_def quiescent_def settle_quiescent)
qed

lemma reachable_consistent:
  "reachable L d \<Longrightarrow> consistent L d \<and> quiescent d"
proof (induction rule: reachable.induct)
  case (mounted a)
  show ?case
    using mount_quiescent [of L a]
    by (simp add: mount_def settle_consistent consistent_unmounted)
next
  case (stepped d e)
  then show ?case by (simp add: step_consistent step_quiescent)
qed

lemma reachable_timers:
  assumes "reachable L d"
  shows "timersWf d"
    and "finOK d (onFinishedDeps L (args d) (rstate d))"
    and "advOK L d (windupDeps L (args d) (rstate d))"
  using reachable_consistent [OF assms]
  by (auto simp: consistent_def quiescent_def pre4_def pre5_def)


section \<open>Which timers survive a render\<close>

text \<open>
  A timer pending after a render was pending before it and escaped the cleanup of the
  windup effect, or it was created by this render and has a new handle.  So an advance
  timer that is older than some point is still pending only while the committed windup is
  the one of that point.
\<close>

lemma render_fresh_mono: "fresh d \<le> fresh (render L d)"
  by (simp add: render_def windupEffect_timers onFinishedEffect_timers)

lemma render_timers_origin:
  assumes "t \<in> set (timers (render L d))"
  shows "(t \<in> set (timers d)
          \<and> \<not> (depsChanged (windupDeps L) (reduce L d) \<and> windupCleanup d
                 \<and> timeoutRef d = Some (handle t))
          \<and> \<not> (depsChanged (onFinishedDeps L) (reduce L d)
                 \<and> finishCleanup d = Some (handle t)))
         \<or> fresh d \<le> handle t"
proof -
  let ?c4 = "onFinishedCleanup L (reduce L d)"
  let ?c5 = "windupEffectCleanup L ?c4"
  let ?e3 = "onCharEffect L (skippedEffect (replaceEffect ?c5))"
  let ?e4 = "onFinishedEffect L ?e3"
  have ch: "depsChanged (windupDeps L) ?c4 = depsChanged (windupDeps L) (reduce L d)"
    by (rule depsChanged_cong) simp_all
  have sub3: "set (timers ?e3) \<subseteq> set (timers ?c5)"
    by (simp add: skippedEffect_timers_filter)
  have c5: "t' \<in> set (timers ?c5) \<Longrightarrow> t' \<in> set (timers d)
          \<and> \<not> (depsChanged (windupDeps L) (reduce L d) \<and> windupCleanup d
                 \<and> timeoutRef d = Some (handle t'))
          \<and> \<not> (depsChanged (onFinishedDeps L) (reduce L d)
                 \<and> finishCleanup d = Some (handle t'))" for t'
    by (simp add: windupEffectCleanup_timers_filter onFinishedCleanup_timers_filter ch)
  have f3: "fresh ?e3 = fresh d" by simp
  have f4: "fresh d \<le> fresh ?e4" by (simp add: onFinishedEffect_timers)
  from assms have "t \<in> set (timers (windupEffect L ?e4))" by (simp add: render_def)
  then have "t \<in> set (timers ?e4) \<or> handle t = fresh ?e4"
    by (auto simp: windupEffect_timers split: if_splits)
  then have "t \<in> set (timers ?e3) \<or> handle t = fresh ?e3 \<or> handle t = fresh ?e4"
    by (auto simp: onFinishedEffect_timers split: if_splits)
  then show ?thesis using sub3 c5 [of t] f3 f4 by auto
qed

definition oldAdvance :: "nat \<Rightarrow> ('w, 'n) hook \<Rightarrow> bool" where
  "oldAdvance n d \<longleftrightarrow> (\<exists>t\<in>set (timers d). task t = DispatchNext \<and> handle t < n)"

definition keptFor :: "nat \<Rightarrow> 'w \<Rightarrow> ('w, 'n) hook \<Rightarrow> bool" where
  "keptFor n w d \<longleftrightarrow>
     n \<le> fresh d \<and>
     (oldAdvance n d \<longrightarrow> (\<exists>a0 s0. committed d = Some (a0, s0) \<and> windup s0 = w))"

lemma render_keptFor:
  assumes "consistent L d" "keptFor n w d"
  shows "keptFor n w (render L d)"
proof -
  have n: "n \<le> fresh (render L d)"
    using assms(2) render_fresh_mono [of d L] by (simp add: keptFor_def)
  have "windup (rstate (render L d)) = w" if old: "oldAdvance n (render L d)"
  proof -
    from old obtain t where t: "t \<in> set (timers (render L d))" "task t = DispatchNext"
      "handle t < n" by (auto simp: oldAdvance_def)
    from assms(2) t(3) have lt: "handle t < fresh d" by (simp add: keptFor_def)
    with render_timers_origin [OF t(1)] have mem: "t \<in> set (timers d)"
      and keep: "\<not> (depsChanged (windupDeps L) (reduce L d) \<and> windupCleanup d
                 \<and> timeoutRef d = Some (handle t))" by auto
    from mem t have "oldAdvance n d" by (auto simp: oldAdvance_def)
    with assms(2) obtain a0 s0 where c: "committed d = Some (a0, s0)" "windup s0 = w"
      by (auto simp: keptFor_def)
    from assms(1) c mem t(2) have "timeoutRef d = Some (handle t)" "windupCleanup d"
      by (auto simp: consistent_def pre5_def advOK_def)
    with keep have "\<not> depsChanged (windupDeps L) (reduce L d)" by simp
    with c show ?thesis by (simp add: depsChanged_def windupDeps_def)
  qed
  then show ?thesis using n by (simp add: keptFor_def)
qed

lemma settle_keptFor:
  assumes "consistent L d" "keptFor n w d"
  shows "keptFor n w (settle L d)"
  using assms by (simp add: settle_unfold render_keptFor render_consistent)

lemma keptFor_sub:
  assumes "keptFor n w d" "set (timers d') \<subseteq> set (timers d)" "fresh d' = fresh d"
    "committed d' = committed d"
  shows "keptFor n w d'"
  using assms by (auto simp: keptFor_def oldAdvance_def)

lemma step_keptFor:
  assumes "consistent L d" "quiescent d"
  shows "keptFor (fresh d) (windup (rstate d)) (step L e d)"
proof -
  have k: "keptFor (fresh d) (windup (rstate d)) d"
    using assms(2) by (simp add: keptFor_def quiescent_def)
  show ?thesis
  proof (cases e)
    case (TimerFires h)
    have "keptFor (fresh d) (windup (rstate d)) (runTask L tk (clearTimeout h d))" for tk
      using runTask_timers_sub [of L tk "clearTimeout h d"]
      by (intro keptFor_sub [OF k]) auto
    then show ?thesis using TimerFires k assms(1)
      by (auto simp: fire_def split: option.splits
          intro!: settle_keptFor consistent_runTask consistent_clearTimeout)
  next
    case CallSkip
    have "keptFor (fresh d) (windup (rstate d)) (dispatch FastForward (clearRef d))"
      by (rule keptFor_sub [OF k]) (simp_all add: clearRef_timers_sub)
    then show ?thesis using CallSkip k assms(1)
      by (auto simp: skip_def intro!: settle_keptFor consistent_dispatch consistent_clearRef)
  next
    case CallRewind
    have "keptFor (fresh d) (windup (rstate d)) (dispatch Rewind (clearRef d))"
      by (rule keptFor_sub [OF k]) (simp_all add: clearRef_timers_sub)
    then show ?thesis using CallRewind assms(1)
      by (auto simp: rewindCallback_def
          intro!: settle_keptFor consistent_dispatch consistent_clearRef)
  next
    case (Rerender a)
    have "keptFor (fresh d) (windup (rstate d)) (d\<lparr>args := a\<rparr>)"
      by (rule keptFor_sub [OF k]) simp_all
    then show ?thesis using Rerender assms(1)
      by (auto simp: rerender_def intro!: settle_keptFor consistent_args)
  qed
qed

lemma at_most_one:
  assumes "distinct (map f xs)" "\<forall>x\<in>set xs. f x = c"
  shows "length xs \<le> 1"
proof (cases xs)
  case Nil then show ?thesis by simp
next
  case (Cons x ys)
  then show ?thesis using assms by (cases ys) auto
qed

lemma advance_timers_at_most_one:
  assumes "timersWf d" "advOK L d y"
  shows "length (filter (\<lambda>t. task t = DispatchNext) (timers d)) \<le> 1"
proof (cases "timeoutRef d")
  case None
  then have "filter (\<lambda>t. task t = DispatchNext) (timers d) = []"
    using assms(2) by (auto simp: advOK_def filter_empty_conv)
  then show ?thesis by simp
next
  case (Some h)
  show ?thesis
  proof (rule at_most_one [where f = handle and c = h])
    show "distinct (map handle (filter (\<lambda>t. task t = DispatchNext) (timers d)))"
      using assms(1) by (simp add: timersWf_def distinct_map_filter)
    show "\<forall>x\<in>set (filter (\<lambda>t. task t = DispatchNext) (timers d)). handle x = h"
      using assms(2) Some by (auto simp: advOK_def)
  qed
qed

definition noOld :: "nat \<Rightarrow> ('w, 'n) hook \<Rightarrow> bool" where
  "noOld n d \<longleftrightarrow> n \<le> fresh d \<and> \<not> oldAdvance n d"

lemma render_noOld:
  assumes "noOld n d"
  shows "noOld n (render L d)"
proof -
  have "n \<le> fresh (render L d)"
    using assms render_fresh_mono [of d L] by (simp add: noOld_def)
  moreover have "\<not> oldAdvance n (render L d)"
  proof
    assume "oldAdvance n (render L d)"
    then obtain t where t: "t \<in> set (timers (render L d))" "task t = DispatchNext"
      "handle t < n" by (auto simp: oldAdvance_def)
    with render_timers_origin [OF t(1)] assms show False
      by (auto simp: noOld_def oldAdvance_def)
  qed
  ultimately show ?thesis by (simp add: noOld_def)
qed

lemma settle_noOld: "noOld n d \<Longrightarrow> noOld n (settle L d)"
  by (simp add: settle_unfold render_noOld)

lemma clearRef_noOld:
  assumes "advOK L d y"
  shows "noOld (fresh d) (dispatch a (clearRef d))"
  using assms by (auto simp: noOld_def oldAdvance_def advOK_def clearRef_timers_filter)

lemma mount_plain:
  assumes "skipped (options a) = None"
  shows "mount L a = render L (render L (unmounted a))"
proof -
  have "queue (render L (unmounted a)) \<noteq> []"
    by (simp add: render_queue depsChanged_def unmounted_def)
  then show ?thesis by (simp add: mount_def settle_unfold)
qed

section \<open>Completions\<close>

text \<open>
  The history is cut into play-throughs at every dispatched \<^verbatim>\<open>replace\<close> and \<^verbatim>\<open>rewind\<close>;
  \<open>completionCounts 0 h\<close> lists, for each play-through of \<open>h\<close> in order, how many times
  the completion callback was called in it.  \<open>pending\<close> is the reducer state once the
  queued actions are consumed.
\<close>

fun isReset :: "'w observation \<Rightarrow> bool" where
  "isReset (Dispatched (Replace w)) = True"
| "isReset (Dispatched Rewind) = True"
| "isReset x = False"

fun isCompleted :: "'w observation \<Rightarrow> bool" where
  "isCompleted (Completed c) = True"
| "isCompleted x = False"

fun completionCounts :: "nat \<Rightarrow> 'w observation list \<Rightarrow> nat list" where
  "completionCounts n [] = [n]"
| "completionCounts n (x # xs) =
     (if isReset x then n # completionCounts 0 xs
      else if isCompleted x then completionCounts (Suc n) xs
      else completionCounts n xs)"

definition pending :: "('w, 'n) windupLib \<Rightarrow> ('w, 'n) hook \<Rightarrow> 'w windupReducerState" where
  "pending L d = foldl (windupReducer L) (rstate d) (queue d)"


definition onCharCalls :: "('w, 'n) windupLib \<Rightarrow> 'w \<Rightarrow> 'w observation list" where
  "onCharCalls L w =
     (case lastPlayedElement L w of
        None \<Rightarrow> []
      | Some el \<Rightarrow> if el \<noteq> [] then map (\<lambda>c. Revealed c el) (onCharsFromWindup L w) else [])"

lemma completionCounts_nonempty [simp]: "completionCounts n xs \<noteq> []"
  by (induction xs arbitrary: n) auto




lemma onCharEffect_history:
  "history (onCharEffect L d) =
     history d @ (if depsChanged onCharDeps d then onCharCalls L (windup (rstate d)) else [])"
  by (auto simp: onCharEffect_def onCharCalls_def Let_def split: option.splits)


lemma pending_dispatch: "pending L (dispatch a d) = windupReducer L (pending L d) a"
  by (simp add: pending_def)

lemma pending_reduce [simp]: "pending L (reduce L d) = pending L d"
  by (simp add: pending_def)

lemma in_set_butlast_snoc:
  "\<forall>k\<in>set cs. k \<le> (1::nat) \<Longrightarrow> \<forall>k\<in>set (butlast cs). k \<le> 1"
  by (auto dest: in_set_butlastD)














lemma pending_quiescent: "quiescent d \<Longrightarrow> pending L d = rstate d"
  by (simp add: quiescent_def pending_def)





subsection \<open>A finished windup with the flag unset has its completion timer\<close>











subsection \<open>What a render and an event add to the history\<close>



lemma replaceEffect_history:
  "history (replaceEffect d) =
     history d @ (if depsChanged replaceDeps d
                  then [Dispatched (Replace (windupInit (args d)))] else [])"
  by (simp add: replaceEffect_def)

lemma skippedEffect_history:
  "history (skippedEffect d) =
     history d @ (if depsChanged skippedDeps d then
        (case skipped (options (args d)) of
           None \<Rightarrow> []
         | Some True \<Rightarrow> [Dispatched FastForward]
         | Some False \<Rightarrow> [Dispatched Rewind])
      else [])"
  by (simp add: skippedEffect_def Let_def split: option.splits bool.splits)

lemma render_history:
  "history (render L d) =
     history d @ map Dispatched (queue (render L d)) @
     (if depsChanged onCharDeps (reduce L d) then onCharCalls L (windup (pending L d)) else [])"
proof -
  let ?c = "windupEffectCleanup L (onFinishedCleanup L (reduce L d))"
  have r: "depsChanged replaceDeps ?c = depsChanged replaceDeps d"
    by (simp add: depsChanged_def replaceDeps_def split: option.splits)
  have s: "depsChanged skippedDeps (replaceEffect ?c) = depsChanged skippedDeps d"
    by (simp add: depsChanged_def skippedDeps_def split: option.splits)
  have o: "depsChanged onCharDeps (skippedEffect (replaceEffect ?c))
             = depsChanged onCharDeps (reduce L d)"
    by (rule depsChanged_cong) simp_all
  have h: "history (render L d) =
     history d @
     (if depsChanged replaceDeps d then [Dispatched (Replace (windupInit (args d)))] else []) @
     (if depsChanged skippedDeps d then
        (case skipped (options (args d)) of
           None \<Rightarrow> []
         | Some True \<Rightarrow> [Dispatched FastForward]
         | Some False \<Rightarrow> [Dispatched Rewind])
      else []) @
     (if depsChanged onCharDeps (reduce L d) then onCharCalls L (windup (pending L d)) else [])"
    by (simp add: render_def onCharEffect_history skippedEffect_history
        replaceEffect_history r s o pending_def)
  show ?thesis
    unfolding h render_queue by (simp split: option.splits bool.splits)
qed










lemma reachable_run: "reachable L (run L a es)"
proof (induction es rule: rev_induct)
  case Nil
  show ?case by (simp add: run_def reachable.mounted)
next
  case (snoc e es)
  then show ?case using reachable.stepped [of L "run L a es" e] by (simp add: run_def)
qed


section \<open>Cancelled handles\<close>












section \<open>Reveal callbacks\<close>

fun isRevealed :: "'w observation \<Rightarrow> bool" where
  "isRevealed (Revealed c el) = True"
| "isRevealed x = False"

lemma onCharCalls_revealed [simp]: "filter isRevealed (onCharCalls L w) = onCharCalls L w"
  by (auto simp: onCharCalls_def split: option.splits)

lemma dispatched_not_revealed [simp]: "filter isRevealed (map Dispatched q) = []"
  by (induction q) simp_all





section \<open>What an event does to the timers\<close>


















section \<open>The empty sequence\<close>

text \<open>
  In the progression model of the specification a windup over the empty sequence is
  finished, has no last played element, and \<^verbatim>\<open>next\<close>, \<^verbatim>\<open>rewind\<close> and \<^verbatim>\<open>fastForward\<close>
  give a windup over the empty sequence again.  A hook mounted on one keeps the empty
  sequence as long as no render brings a \<^verbatim>\<open>windupInit\<close> over another sequence.
\<close>

definition emptyWindup :: "progression \<Rightarrow> bool" where
  "emptyWindup w \<longleftrightarrow> sequence w = [] \<and> cursor w = 0"

fun keepsEmpty :: "progression event \<Rightarrow> bool" where
  "keepsEmpty (Rerender a) = emptyWindup (windupInit a)"
| "keepsEmpty e = True"

definition staysEmpty :: "(progression, 'n) windupLib \<Rightarrow> (progression, 'n) hook \<Rightarrow> bool" where
  "staysEmpty L d \<longleftrightarrow>
     emptyWindup (windup (pending L d)) \<and> emptyWindup (windup (rstate d))
     \<and> emptyWindup (windupInit (args d)) \<and> filter isRevealed (history d) = []"

lemma reducer_empty:
  assumes "emptyWindup (windup s)" "\<And>w. a = Replace w \<Longrightarrow> emptyWindup w"
  shows "emptyWindup (windup (windupReducer (cursorLib cs pace dflt) s a))"
  using assms
  by (cases a)
     (simp_all add: cursorLib_def emptyWindup_def initWindupState_def progNext_def
       progFinished_def progRewind_def progFastForward_def)

lemma reducers_empty:
  assumes "emptyWindup (windup s)" "\<And>w. Replace w \<in> set q \<Longrightarrow> emptyWindup w"
  shows "emptyWindup (windup (foldl (windupReducer (cursorLib cs pace dflt)) s q))"
  using assms
proof (induction q arbitrary: s)
  case Nil
  then show ?case by simp
next
  case (Cons a q)
  have "emptyWindup (windup (windupReducer (cursorLib cs pace dflt) s a))"
    using Cons.prems by (intro reducer_empty) auto
  then show ?case using Cons.IH Cons.prems(2) by simp
qed

lemma onCharCalls_empty: "emptyWindup w \<Longrightarrow> onCharCalls (cursorLib cs pace dflt) w = []"
  by (simp add: onCharCalls_def cursorLib_def emptyWindup_def progLastPlayed_def)

lemma render_queue_set:
  assumes "x \<in> set (queue (render L d))"
  shows "x = Replace (windupInit (args d)) \<or> x = FastForward \<or> x = Rewind"
proof (cases "skipped (options (args d))")
  case None
  with assms show ?thesis
    by (cases "depsChanged replaceDeps d"; cases "depsChanged skippedDeps d")
       (simp_all add: render_queue)
next
  case (Some b)
  with assms show ?thesis
    by (cases "depsChanged replaceDeps d"; cases "depsChanged skippedDeps d"; cases b)
       (auto simp: render_queue)
qed

lemma render_staysEmpty:
  assumes "staysEmpty (cursorLib cs pace dflt) d"
  shows "staysEmpty (cursorLib cs pace dflt) (render (cursorLib cs pace dflt) d)"
proof -
  let ?L = "cursorLib cs pace dflt"
  have r: "emptyWindup (windup (rstate (render ?L d)))"
    using assms by (simp add: staysEmpty_def pending_def)
  have q: "emptyWindup w" if "Replace w \<in> set (queue (render ?L d))" for w
    using render_queue_set [OF that] assms by (simp add: staysEmpty_def)
  have p: "emptyWindup (windup (pending ?L (render ?L d)))"
    using reducers_empty [OF r, of "queue (render ?L d)" cs pace dflt] q
    by (simp add: pending_def)
  have h: "filter isRevealed (history (render ?L d)) = []"
    using assms by (simp add: render_history staysEmpty_def onCharCalls_empty)
  from r p h assms show ?thesis by (simp add: staysEmpty_def)
qed

lemma settle_staysEmpty:
  "staysEmpty (cursorLib cs pace dflt) d
     \<Longrightarrow> staysEmpty (cursorLib cs pace dflt) (settle (cursorLib cs pace dflt) d)"
  by (simp add: settle_unfold render_staysEmpty)

lemma dispatch_staysEmpty:
  assumes "staysEmpty (cursorLib cs pace dflt) d" "\<And>w. a = Replace w \<Longrightarrow> emptyWindup w"
  shows "staysEmpty (cursorLib cs pace dflt) (dispatch a d)"
  using assms reducer_empty [of "pending (cursorLib cs pace dflt) d" a cs pace dflt]
  by (simp add: staysEmpty_def pending_dispatch)

lemma dispatch_plain_staysEmpty:
  assumes "staysEmpty (cursorLib cs pace dflt) d"
  shows "staysEmpty (cursorLib cs pace dflt) (dispatch Next d)"
    and "staysEmpty (cursorLib cs pace dflt) (dispatch FastForward d)"
    and "staysEmpty (cursorLib cs pace dflt) (dispatch Rewind d)"
    and "staysEmpty (cursorLib cs pace dflt) (dispatch Finish d)"
  by (rule dispatch_staysEmpty [OF assms], simp)+

lemma staysEmpty_cong:
  "staysEmpty L d \<Longrightarrow> rstate d' = rstate d \<Longrightarrow> queue d' = queue d \<Longrightarrow> args d' = args d
     \<Longrightarrow> history d' = history d \<Longrightarrow> staysEmpty L d'"
  by (simp add: staysEmpty_def pending_def)

lemma invoke_staysEmpty:
  assumes "staysEmpty (cursorLib cs pace dflt) d"
  shows "staysEmpty (cursorLib cs pace dflt) (invoke (cursorLib cs pace dflt) c d)"
proof -
  have "staysEmpty (cursorLib cs pace dflt) (clearRef d)"
    by (rule staysEmpty_cong [OF assms]) simp_all
  then show ?thesis using assms by (cases c) (simp_all add: dispatch_plain_staysEmpty)
qed

lemma invokes_staysEmpty:
  "staysEmpty (cursorLib cs pace dflt) d
     \<Longrightarrow> staysEmpty (cursorLib cs pace dflt)
           (foldl (\<lambda>x c. invoke (cursorLib cs pace dflt) c x) d xs)"
  by (induction xs arbitrary: d) (simp_all add: invoke_staysEmpty)

lemma runTask_staysEmpty:
  assumes "staysEmpty (cursorLib cs pace dflt) d"
  shows "staysEmpty (cursorLib cs pace dflt) (runTask (cursorLib cs pace dflt) tk d)"
proof (cases tk)
  case DispatchNext
  then show ?thesis using dispatch_plain_staysEmpty(1) [OF assms] by simp
next
  case (NotifyFinished c)
  show ?thesis
  proof (cases c)
    case None
    then show ?thesis using NotifyFinished dispatch_plain_staysEmpty(4) [OF assms] by simp
  next
    case (Some f)
    have "staysEmpty (cursorLib cs pace dflt) (d\<lparr>history := history d @ [Completed (fnId f)]\<rparr>)"
      using assms by (simp add: staysEmpty_def pending_def)
    then have "staysEmpty (cursorLib cs pace dflt)
        (foldl (\<lambda>x c. invoke (cursorLib cs pace dflt) c x)
           (d\<lparr>history := history d @ [Completed (fnId f)]\<rparr>) (invokes f))"
      by (rule invokes_staysEmpty)
    from dispatch_plain_staysEmpty(4) [OF this] show ?thesis
      using NotifyFinished Some by simp
  qed
qed

lemma step_staysEmpty:
  assumes "staysEmpty (cursorLib cs pace dflt) d" "keepsEmpty e"
  shows "staysEmpty (cursorLib cs pace dflt) (step (cursorLib cs pace dflt) e d)"
proof (cases e)
  case (TimerFires h)
  have "staysEmpty (cursorLib cs pace dflt) (clearTimeout h d)"
    by (rule staysEmpty_cong [OF assms(1)]) simp_all
  then show ?thesis using TimerFires assms(1)
    by (simp add: fire_def settle_staysEmpty runTask_staysEmpty split: option.splits)
next
  case CallSkip
  have "staysEmpty (cursorLib cs pace dflt) (clearRef d)"
    by (rule staysEmpty_cong [OF assms(1)]) simp_all
  then show ?thesis using CallSkip assms(1)
    by (simp add: skip_def settle_staysEmpty dispatch_plain_staysEmpty)
next
  case CallRewind
  have "staysEmpty (cursorLib cs pace dflt) (clearRef d)"
    by (rule staysEmpty_cong [OF assms(1)]) simp_all
  then show ?thesis using CallRewind
    by (simp add: rewindCallback_def settle_staysEmpty dispatch_plain_staysEmpty)
next
  case (Rerender a)
  then have "staysEmpty (cursorLib cs pace dflt) (d\<lparr>args := a\<rparr>)"
    using assms by (simp add: staysEmpty_def pending_def)
  then show ?thesis using Rerender by (simp add: rerender_def settle_staysEmpty)
qed

lemma run_staysEmpty:
  assumes "emptyWindup (windupInit a)" "\<forall>e\<in>set es. keepsEmpty e"
  shows "staysEmpty (cursorLib cs pace dflt) (run (cursorLib cs pace dflt) a es)"
  using assms(2)
proof (induction es rule: rev_induct)
  case Nil
  have "staysEmpty (cursorLib cs pace dflt) (unmounted a)"
    using assms(1) by (simp add: staysEmpty_def pending_def unmounted_def initWindupState_def)
  then show ?case by (simp add: run_def mount_def settle_staysEmpty)
next
  case (snoc e es)
  then show ?case by (simp add: run_def step_staysEmpty)
qed

lemma empty_sequence_quiet:
  assumes "emptyWindup (windupInit a)" and "\<forall>e\<in>set es. keepsEmpty e"
  shows "isFinished (cursorLib cs pace dflt)
           (windup (rstate (run (cursorLib cs pace dflt) a es)))"
    and "\<forall>t\<in>set (timers (run (cursorLib cs pace dflt) a es)). task t \<noteq> DispatchNext"
    and "filter isRevealed (history (run (cursorLib cs pace dflt) a es)) = []"
proof -
  let ?L = "cursorLib cs pace dflt"
  let ?d = "run ?L a es"
  have r: "reachable ?L ?d" by (rule reachable_run)
  note inv = reachable_timers [OF r]
  have s: "staysEmpty ?L ?d" by (rule run_staysEmpty [OF assms])
  then have w: "emptyWindup (windup (rstate ?d))" by (simp add: staysEmpty_def)
  show f: "isFinished ?L (windup (rstate ?d))"
    using w by (simp add: cursorLib_def emptyWindup_def progFinished_def)
  show "\<forall>t\<in>set (timers ?d). task t \<noteq> DispatchNext"
    using inv(3) f by (auto simp: advOK_def windupDeps_def)
  show "filter isRevealed (history ?d) = []" using s by (simp add: staysEmpty_def)
qed

lemma mount_flag_unset: "\<not> didFinishOnce (rstate (mount L a))"
proof -
  have q: "queue (render L (unmounted a)) \<noteq> []"
    by (simp add: render_queue depsChanged_def unmounted_def)
  have "rstate (mount L a)
          = foldl (windupReducer L) (initWindupState (windupInit a))
              (queue (render L (unmounted a)))"
    using q by (simp add: mount_def settle_unfold) (simp add: unmounted_def)
  then show ?thesis
    by (simp add: render_queue depsChanged_def unmounted_def initWindupState_def
        split: option.splits bool.splits)
qed

section \<open>Example inputs\<close>

definition fiftyPace :: "int paceFn" where
  "fiftyPace el nxt = 50"

definition negativePace :: "int paceFn" where
  "negativePace el nxt = - 5"

definition demoLib :: "(progression, int) windupLib" where
  "demoLib = cursorLib [7] None fiftyPace"

definition negativeLib :: "(progression, int) windupLib" where
  "negativeLib = cursorLib [7] (Some negativePace) fiftyPace"

definition demoArgs :: "string list \<Rightarrow> bool option \<Rightarrow> progression hookArgs" where
  "demoArgs xs s =
     \<lparr> windupInit = \<lparr> sequence = xs, cursor = 0, stateId = 0 \<rparr>,
       options = \<lparr> onFinished = Some \<lparr> fnId = 9, invokes = [] \<rparr>, skipped = s,
                   objectId = 0 \<rparr> \<rparr>"

text \<open>
  Arguments whose completion callback calls \<^verbatim>\<open>rewind\<close>, as a component does that plays
  its text in a loop: \<^verbatim>\<open>useWindup(w, {onFinished: () => rewind()})\<close>.
\<close>

definition loopArgs :: "string list \<Rightarrow> progression hookArgs" where
  "loopArgs xs =
     \<lparr> windupInit = \<lparr> sequence = xs, cursor = 0, stateId = 0 \<rparr>,
       options = \<lparr> onFinished = Some \<lparr> fnId = 9, invokes = [InvokeRewind] \<rparr>,
                   skipped = None, objectId = 0 \<rparr> \<rparr>"

lemma bool_option_present: "(\<exists>b. \<not> b) = True" "(\<exists>b::bool. b) = True"
  by auto

lemmas hook_eval = bool_option_present
  run_def mount_def unmounted_def settle_unfold render_def reduce_def commit_def
  onFinishedCleanup_def windupEffectCleanup_def replaceEffect_def skippedEffect_def
  onCharEffect_def onFinishedEffect_def windupEffect_def depsChanged_def
  replaceDeps_def skippedDeps_def onCharDeps_def onFinishedDeps_def windupDeps_def
  setTimeout_def clearTimeout_def clearRef_def dispatch_def timerDelay_def
  fire_def skip_def rewindCallback_def rerender_def initWindupState_def
  cursorLib_def progFinished_def progLastPlayed_def progNextElement_def progNext_def
  progRewind_def progFastForward_def demoLib_def negativeLib_def demoArgs_def
  loopArgs_def fiftyPace_def negativePace_def Let_def


section \<open>The claims\<close>

text \<open>
  C1.  The code at the input where the claim fails: the hook is called with a completion
  callback that calls \<^verbatim>\<open>rewind\<close>, on a sequence of one element.  The first play-through
  ends and its completion timer fires: the callback is called, the \<^verbatim>\<open>rewind\<close> it makes is
  dispatched, and then \<^verbatim>\<open>finish\<close> (lines 147 to 152), so the reducer sets
  \<^verbatim>\<open>didFinishOnce\<close> on the rewound windup.  The second play-through runs to its end with
  \<^verbatim>\<open>didFinishOnce\<close> true: the test of line 146 is false, no completion timer is created,
  and the callback is not called for it; the windup is finished and no timer is pending.
  The counts of completion calls per play-through are 0 (before the \<^verbatim>\<open>replace\<close> of the
  mount), 1 and 0.  When \<^verbatim>\<open>rewind\<close> is called after the completion timer has fired, not
  inside the callback, the second play-through gets its call: the counts are 0, 1 and 1.
\<close>

theorem rewind_in_onFinished_loses_completion:
  "history (run demoLib (loopArgs [''a'']) [TimerFires 1, TimerFires 2, TimerFires 3])
     = [Dispatched (Replace \<lparr> sequence = [''a''], cursor = 0, stateId = 0 \<rparr>),
        Dispatched Next, Revealed 7 ''a'',
        Completed 9, Dispatched Rewind, Dispatched Finish,
        Dispatched Next, Revealed 7 ''a'']
   \<and> completionCounts 0
        (history (run demoLib (loopArgs [''a'']) [TimerFires 1, TimerFires 2, TimerFires 3]))
     = [0, 1, 0]
   \<and> isFinished demoLib
        (windup (rstate (run demoLib (loopArgs [''a'']) [TimerFires 1, TimerFires 2, TimerFires 3])))
   \<and> didFinishOnce (rstate (run demoLib (loopArgs [''a'']) [TimerFires 1, TimerFires 2, TimerFires 3]))
   \<and> timers (run demoLib (loopArgs [''a'']) [TimerFires 1, TimerFires 2, TimerFires 3]) = []
   \<and> completionCounts 0
        (history (run demoLib (demoArgs [''a''] None)
           [TimerFires 1, TimerFires 2, CallRewind, TimerFires 3, TimerFires 4]))
     = [0, 1, 1]"
  by (simp add: hook_eval)




text \<open>
  C3.  Between events at most one advance timer is pending.  It is the one whose handle
  \<^verbatim>\<open>timeoutRef\<close> holds, it exists only while the windup is not finished, and its delay is
  the one computed from the current windup.  An event that changes the windup (a replace, a
  rewind, a skip, a timer firing) leaves no advance timer that was pending before it, and
  neither does any call of \<^verbatim>\<open>skip\<close> or \<^verbatim>\<open>rewind\<close>: every advance timer pending afterwards
  has a handle created during the event.  Inside a render, at the point where the windup
  effect creates its timer, no advance timer is pending; this holds of every render that
  starts in a state with consistent timers, as all reachable states are (and the states
  an event handler leaves, which differ from them by cleared timers and queued actions).
\<close>

theorem one_pending_advance_timer:
  assumes "reachable L d"
  shows "length (filter (\<lambda>t. task t = DispatchNext) (timers d)) \<le> 1
    \<and> (\<forall>t\<in>set (timers d). task t = DispatchNext \<longrightarrow>
          timeoutRef d = Some (handle t) \<and> \<not> isFinished L (windup (rstate d))
          \<and> delay t = timerDelay L (windup (rstate d)))
    \<and> (windup (rstate (step L e d)) \<noteq> windup (rstate d) \<longrightarrow>
          (\<forall>t\<in>set (timers (step L e d)). task t = DispatchNext \<longrightarrow> fresh d \<le> handle t))
    \<and> (\<forall>t\<in>set (timers (step L CallSkip d)). task t = DispatchNext \<longrightarrow>
          fresh d \<le> handle t)
    \<and> (\<forall>t\<in>set (timers (step L CallRewind d)). task t = DispatchNext \<longrightarrow>
          fresh d \<le> handle t)
    \<and> (consistent L x \<longrightarrow>
          timers (windupEffect L (beforeWindupEffect L x)) \<noteq> timers (beforeWindupEffect L x)
          \<longrightarrow> (\<forall>t\<in>set (timers (beforeWindupEffect L x)). task t \<noteq> DispatchNext))
    \<and> consistent L d"
proof -
  note inv = reachable_timers [OF assms]
  have cq: "consistent L d" "quiescent d" using reachable_consistent [OF assms] by simp_all
  have q': "quiescent (step L e d)" by (rule step_quiescent [OF cq(2)])
  have one: "length (filter (\<lambda>t. task t = DispatchNext) (timers d)) \<le> 1"
    by (rule advance_timers_at_most_one [OF inv(1) inv(3)])
  have cur: "\<forall>t\<in>set (timers d). task t = DispatchNext \<longrightarrow>
          timeoutRef d = Some (handle t) \<and> \<not> isFinished L (windup (rstate d))
          \<and> delay t = timerDelay L (windup (rstate d))"
    using inv(3) by (auto simp: advOK_def windupDeps_def)
  have chg: "\<forall>t\<in>set (timers (step L e d)). task t = DispatchNext \<longrightarrow> fresh d \<le> handle t"
    if "windup (rstate (step L e d)) \<noteq> windup (rstate d)"
  proof (rule ccontr)
    assume "\<not> ?thesis"
    then have "oldAdvance (fresh d) (step L e d)" by (auto simp: oldAdvance_def not_le)
    with step_keptFor [OF cq, of e] q' that show False
      by (auto simp: keptFor_def quiescent_def)
  qed
  have "noOld (fresh d) (settle L (dispatch FastForward (clearRef d)))"
    by (rule settle_noOld [OF clearRef_noOld [OF inv(3)]])
  then have sk: "\<forall>t\<in>set (timers (step L CallSkip d)). task t = DispatchNext \<longrightarrow>
          fresh d \<le> handle t"
    using cur by (auto simp: skip_def noOld_def oldAdvance_def not_le)
  have "noOld (fresh d) (settle L (dispatch Rewind (clearRef d)))"
    by (rule settle_noOld [OF clearRef_noOld [OF inv(3)]])
  then have rw: "\<forall>t\<in>set (timers (step L CallRewind d)). task t = DispatchNext \<longrightarrow>
          fresh d \<le> handle t"
    by (auto simp: rewindCallback_def noOld_def oldAdvance_def not_le)
  have mid: "consistent L x \<longrightarrow>
          timers (windupEffect L (beforeWindupEffect L x)) \<noteq> timers (beforeWindupEffect L x)
          \<longrightarrow> (\<forall>t\<in>set (timers (beforeWindupEffect L x)). task t \<noteq> DispatchNext)"
    using windupEffect_after_cleanup [of L x] by blast
  from one cur chg sk rw mid cq(1) show ?thesis by blast
qed

theorem one_pending_advance_timer_witness:
  "length (filter (\<lambda>t. task t = DispatchNext)
      (timers (mount demoLib (demoArgs [''a'', ''b''] None)))) \<le> 1
   \<and> timers (mount demoLib (demoArgs [''a'', ''b''] None))
       = [\<lparr> handle = 1, task = DispatchNext, delay = 0 \<rparr>]
   \<and> timers (step demoLib (TimerFires 1) (mount demoLib (demoArgs [''a'', ''b''] None)))
       = [\<lparr> handle = 2, task = DispatchNext, delay = 50 \<rparr>]"
proof -
  have r: "reachable demoLib (mount demoLib (demoArgs [''a'', ''b''] None))"
    by (rule reachable.mounted)
  have "length (filter (\<lambda>t. task t = DispatchNext)
      (timers (mount demoLib (demoArgs [''a'', ''b''] None)))) \<le> 1"
    using one_pending_advance_timer [OF r] by blast
  moreover have "timers (mount demoLib (demoArgs [''a'', ''b''] None))
       = [\<lparr> handle = 1, task = DispatchNext, delay = 0 \<rparr>]"
    by (simp add: hook_eval)
  moreover have "timers (step demoLib (TimerFires 1) (mount demoLib (demoArgs [''a'', ''b''] None)))
       = [\<lparr> handle = 2, task = DispatchNext, delay = 50 \<rparr>]"
    by (simp add: hook_eval)
  ultimately show ?thesis by blast
qed







text \<open>
  C6.  Calling \<^verbatim>\<open>skip()\<close> when the windup is already finished does nothing: the whole
  state of the hook is unchanged, so there is no transition, no timer is cleared or
  created, and no callback fires.
\<close>

theorem skip_finished_noop:
  "isFinished L (windup (rstate d)) \<Longrightarrow> step L CallSkip d = d"
  by (simp add: skip_def)

theorem skip_finished_noop_witness:
  "isFinished demoLib (windup (rstate (run demoLib (demoArgs [''a'', ''b''] None) [CallSkip])))
   \<and> step demoLib CallSkip (run demoLib (demoArgs [''a'', ''b''] None) [CallSkip])
       = run demoLib (demoArgs [''a'', ''b''] None) [CallSkip]"
proof -
  have fin:
    "isFinished demoLib (windup (rstate (run demoLib (demoArgs [''a'', ''b''] None) [CallSkip])))"
    by (simp add: hook_eval)
  show ?thesis using fin skip_finished_noop [OF fin] by simp
qed

text \<open>
  C7.  The code at the input where the claim fails: the hook is mounted with
  \<^verbatim>\<open>skipped: false\<close> on a sequence of two elements, so an advance timer is pending (the
  second one, since the rewind at mount gave a new windup); the component then renders with
  \<^verbatim>\<open>skipped\<close> absent.  The effect of lines 118 to 130 runs,
  clears the pending timer and dispatches nothing: the reducer state is as before, the
  windup is not finished, and no timer is pending.
\<close>

theorem absent_skipped_clears_timer:
  "timers (run demoLib (demoArgs [''a'', ''b''] (Some False)) [])
     = [\<lparr> handle = 2, task = DispatchNext, delay = 0 \<rparr>]
   \<and> timers (run demoLib (demoArgs [''a'', ''b''] (Some False))
        [Rerender (demoArgs [''a'', ''b''] None)]) = []
   \<and> rstate (run demoLib (demoArgs [''a'', ''b''] (Some False))
        [Rerender (demoArgs [''a'', ''b''] None)])
      = rstate (run demoLib (demoArgs [''a'', ''b''] (Some False)) [])
   \<and> \<not> isFinished demoLib (windup (rstate (run demoLib (demoArgs [''a'', ''b''] (Some False))
        [Rerender (demoArgs [''a'', ''b''] None)])))"
  by (simp add: hook_eval)

text \<open>
  C8.  When the windup has no last played element the delay of the advance timer is zero,
  whatever pace function the windup carries: this holds of the delay expression, of every
  advance timer pending in a reachable state, and of the first timer after mounting.
\<close>

theorem first_delay_zero:
  "(lastPlayedElement L w = None \<longrightarrow> timerDelay L w = 0)
   \<and> (reachable L d \<longrightarrow> lastPlayedElement L (windup (rstate d)) = None \<longrightarrow>
        (\<forall>t\<in>set (timers d). task t = DispatchNext \<longrightarrow> delay t = 0))
   \<and> (lastPlayedElement L (windupInit a) = None \<longrightarrow> \<not> isFinished L (windupInit a) \<longrightarrow>
        skipped (options a) = None \<longrightarrow>
        timers (mount L a) = [\<lparr> handle = 1, task = DispatchNext, delay = 0 \<rparr>])"
proof -
  have z: "timerDelay L w = 0" if "lastPlayedElement L w = None" for w
    using that by (simp add: timerDelay_def)
  have inv: "\<forall>t\<in>set (timers d). task t = DispatchNext \<longrightarrow> delay t = 0"
    if "reachable L d" "lastPlayedElement L (windup (rstate d)) = None"
    using reachable_timers(3) [OF that(1)] z [OF that(2)]
    by (auto simp: advOK_def windupDeps_def)
  have m: "timers (mount L a) = [\<lparr> handle = 1, task = DispatchNext, delay = 0 \<rparr>]"
    if "lastPlayedElement L (windupInit a) = None" "\<not> isFinished L (windupInit a)"
      "skipped (options a) = None"
    using that z [OF that(1)]
    by (simp add: mount_plain unmounted_def render_def reduce_def commit_def
        onFinishedCleanup_def windupEffectCleanup_def replaceEffect_def skippedEffect_def
        onCharEffect_def onFinishedEffect_def windupEffect_def depsChanged_def
        replaceDeps_def skippedDeps_def onCharDeps_def onFinishedDeps_def windupDeps_def
        setTimeout_def clearTimeout_def clearRef_def dispatch_def initWindupState_def Let_def)
  from z inv m show ?thesis by blast
qed


theorem first_delay_zero_witness:
  "lastPlayedElement negativeLib (windupInit (demoArgs [''a'', ''b''] None)) = None
   \<and> \<not> isFinished negativeLib (windupInit (demoArgs [''a'', ''b''] None))
   \<and> skipped (options (demoArgs [''a'', ''b''] None)) = None
   \<and> paceFromWindup negativeLib (windupInit (demoArgs [''a'', ''b''] None)) = Some negativePace
   \<and> timers (mount negativeLib (demoArgs [''a'', ''b''] None))
       = [\<lparr> handle = 1, task = DispatchNext, delay = 0 \<rparr>]"
proof -
  have h: "lastPlayedElement negativeLib (windupInit (demoArgs [''a'', ''b''] None)) = None"
    "\<not> isFinished negativeLib (windupInit (demoArgs [''a'', ''b''] None))"
    "skipped (options (demoArgs [''a'', ''b''] None)) = None"
    "paceFromWindup negativeLib (windupInit (demoArgs [''a'', ''b''] None)) = Some negativePace"
    by (simp_all add: negativeLib_def cursorLib_def demoArgs_def progLastPlayed_def
        progFinished_def)
  show ?thesis
    using h first_delay_zero [of negativeLib "windupInit (demoArgs [''a'', ''b''] None)"
        "mount negativeLib (demoArgs [''a'', ''b''] None)" "demoArgs [''a'', ''b''] None"]
    by blast
qed

text \<open>
  C9.  The code at the input where the claim fails: the hook is called on the empty
  sequence with a completion callback that calls \<^verbatim>\<open>rewind\<close>.  The completion timer of the
  mount fires: the callback is called, its \<^verbatim>\<open>rewind\<close> is dispatched and then \<^verbatim>\<open>finish\<close>,
  so \<^verbatim>\<open>didFinishOnce\<close> is true on the rewound windup.  The play-through that the rewind
  began is finished at once, as the sequence is empty, but no completion timer is created
  for it and no timer is pending: its count of completion calls stays 0.  When \<^verbatim>\<open>rewind\<close>
  is called after the timer has fired, the new play-through gets its call.  This is the
  defect shown for C1, met on the empty sequence.
\<close>

theorem empty_sequence_rewind_in_onFinished:
  "timers (run demoLib (loopArgs []) [])
     = [\<lparr> handle = 1,
          task = NotifyFinished (Some \<lparr> fnId = 9, invokes = [InvokeRewind] \<rparr>), delay = 0 \<rparr>]
   \<and> history (run demoLib (loopArgs []) [TimerFires 1])
     = [Dispatched (Replace \<lparr> sequence = [], cursor = 0, stateId = 0 \<rparr>),
        Completed 9, Dispatched Rewind, Dispatched Finish]
   \<and> completionCounts 0 (history (run demoLib (loopArgs []) [TimerFires 1])) = [0, 1, 0]
   \<and> isFinished demoLib (windup (rstate (run demoLib (loopArgs []) [TimerFires 1])))
   \<and> didFinishOnce (rstate (run demoLib (loopArgs []) [TimerFires 1]))
   \<and> timers (run demoLib (loopArgs []) [TimerFires 1]) = []
   \<and> completionCounts 0
        (history (run demoLib (demoArgs [] None) [TimerFires 1, CallRewind, TimerFires 2]))
     = [0, 1, 1]"
  by (simp add: hook_eval)

text \<open>
  C10.  The frame conditions of the reducer: \<^verbatim>\<open>next\<close> and \<^verbatim>\<open>fast-forward\<close> leave
  \<^verbatim>\<open>didFinishOnce\<close> as it is, \<^verbatim>\<open>finish\<close> leaves the windup as it is and sets
  \<^verbatim>\<open>didFinishOnce\<close>, and \<^verbatim>\<open>rewind\<close> and \<^verbatim>\<open>replace\<close> (like \<^verbatim>\<open>initWindupState\<close>) give a
  state whose \<^verbatim>\<open>didFinishOnce\<close> is false.
\<close>

theorem windupReducer_frame:
  "didFinishOnce (windupReducer L s Next) = didFinishOnce s
   \<and> didFinishOnce (windupReducer L s FastForward) = didFinishOnce s
   \<and> windup (windupReducer L s Finish) = windup s
   \<and> windupReducer L s Finish = s\<lparr>didFinishOnce := True\<rparr>
   \<and> didFinishOnce (windupReducer L s Finish) = True
   \<and> didFinishOnce (windupReducer L s Rewind) = False
   \<and> didFinishOnce (windupReducer L s (Replace w)) = False
   \<and> didFinishOnce (initWindupState w) = False"
  by (simp add: initWindupState_def)

end
